theory Spec2Isabelle
  imports Main "HOL-Library.Word"
begin

unbundle bit_operations_syntax

section \<open>Machine types\<close>

text \<open>
  AssemblyScript's \<open>u8\<close>/\<open>i8\<close>, \<open>u16\<close>/\<open>i16\<close>, \<open>u32\<close>/\<open>i32\<close> and \<open>u64\<close>/\<open>i64\<close> are words of
  that width. A signed and an unsigned type of one width share the word type; the source's
  casts and comparisons say how the bits are read: \<open>ucast\<close> zero-extends or truncates,
  \<open>scast\<close> sign-extends, \<open>unat\<close>/\<open>uint\<close> read unsigned and \<open>sint\<close> reads two's complement.
\<close>

type_synonym u8 = "8 word"
type_synonym u16 = "16 word"
type_synonym u32 = "32 word"
type_synonym u64 = "64 word"

section \<open>The tag table (format.ts)\<close>

text \<open>
  Modelled from the spec: the enumeration \<open>Format\<close> of format.ts, whose values are the tag
  bytes of section 6 of the specification and the bit patterns of the fixed-range families
  of its section 4.1.
\<close>

definition NIL :: u8 where "NIL = 0xc0"
definition FALSE :: u8 where "FALSE = 0xc2"
definition TRUE :: u8 where "TRUE = 0xc3"
definition BIN8 :: u8 where "BIN8 = 0xc4"
definition BIN16 :: u8 where "BIN16 = 0xc5"
definition BIN32 :: u8 where "BIN32 = 0xc6"
definition FLOAT32 :: u8 where "FLOAT32 = 0xca"
definition FLOAT64 :: u8 where "FLOAT64 = 0xcb"
definition UINT8 :: u8 where "UINT8 = 0xcc"
definition UINT16 :: u8 where "UINT16 = 0xcd"
definition UINT32 :: u8 where "UINT32 = 0xce"
definition UINT64 :: u8 where "UINT64 = 0xcf"
definition INT8 :: u8 where "INT8 = 0xd0"
definition INT16 :: u8 where "INT16 = 0xd1"
definition INT32 :: u8 where "INT32 = 0xd2"
definition INT64 :: u8 where "INT64 = 0xd3"
definition FIXEXT1 :: u8 where "FIXEXT1 = 0xd4"
definition FIXEXT2 :: u8 where "FIXEXT2 = 0xd5"
definition FIXEXT4 :: u8 where "FIXEXT4 = 0xd6"
definition FIXEXT8 :: u8 where "FIXEXT8 = 0xd7"
definition FIXEXT16 :: u8 where "FIXEXT16 = 0xd8"
definition STR8 :: u8 where "STR8 = 0xd9"
definition STR16 :: u8 where "STR16 = 0xda"
definition STR32 :: u8 where "STR32 = 0xdb"
definition ARRAY16 :: u8 where "ARRAY16 = 0xdc"
definition ARRAY32 :: u8 where "ARRAY32 = 0xdd"
definition MAP16 :: u8 where "MAP16 = 0xde"
definition MAP32 :: u8 where "MAP32 = 0xdf"
definition FIXMAP :: u8 where "FIXMAP = 0x80"
definition FIXARRAY :: u8 where "FIXARRAY = 0x90"
definition FIXSTR :: u8 where "FIXSTR = 0xa0"
definition NEGATIVE_FIXINT :: u8 where "NEGATIVE_FIXINT = 0xe0"
definition FOUR_LEAST_SIG_BITS_IN_BYTE :: u8 where "FOUR_LEAST_SIG_BITS_IN_BYTE = 0x0f"

lemmas Format_defs =
  NIL_def FALSE_def TRUE_def BIN8_def BIN16_def BIN32_def FLOAT32_def FLOAT64_def
  UINT8_def UINT16_def UINT32_def UINT64_def INT8_def INT16_def INT32_def INT64_def
  FIXEXT1_def FIXEXT2_def FIXEXT4_def FIXEXT8_def FIXEXT16_def STR8_def STR16_def STR32_def
  ARRAY16_def ARRAY32_def MAP16_def MAP32_def FIXMAP_def FIXARRAY_def FIXSTR_def
  NEGATIVE_FIXINT_def FOUR_LEAST_SIG_BITS_IN_BYTE_def

section \<open>The byte cursor (datareader.ts)\<close>

text \<open>
  Modelled from the spec: the class \<open>DataReader\<close> of datareader.ts, the byte cursor of
  sections 3 and 6 of the specification. It holds the buffer and the current position; the
  end position is the length of the buffer (\<open>new DataReader(ua, 0, ua.byteLength)\<close>).
  Every operation fails when too few bytes remain, and a failing operation does not return:
  the decoder uses the value of \<open>getUint8()\<close> as it is, so the failure is an exception,
  here the left injection of a sum. All numbers are big-endian.

  \<open>discard\<close> takes its count as a signed number, as the decoder's casts to \<open>i32\<close> give it,
  and, in the specification's words, fails if the count exceeds what remains; a negative
  count therefore moves the position back. The specification is silent on a position
  before the start of the buffer; a read or a peek at such a position fails here.
\<close>

record DataReader =
  buffer :: "u8 list"
  byteOffset :: int

datatype exn =
    RangeError          \<comment> \<open>the cursor would pass the end of the buffer\<close>
  | TypeError u8        \<comment> \<open>\<open>getSize\<close>: invalid prefix, bad encoding for val\<close>
  | Abort               \<comment> \<open>\<open>unwrap\<close> of a failure, in the facade \<open>Decoder\<close>\<close>

type_synonym 'a io = "DataReader \<Rightarrow> exn + ('a \<times> DataReader)"

definition ret :: "'a \<Rightarrow> 'a io" where
  "ret x r = Inr (x, r)"

definition bind :: "'a io \<Rightarrow> ('a \<Rightarrow> 'b io) \<Rightarrow> 'b io" where
  "bind m f r = (case m r of Inl e \<Rightarrow> Inl e | Inr (x, r') \<Rightarrow> f x r')"

definition remaining :: "DataReader \<Rightarrow> int" where
  "remaining r = int (length (buffer r)) - byteOffset r"

definition be_nat :: "u8 list \<Rightarrow> nat" where
  "be_nat bs = foldl (\<lambda>a b. a * 256 + unat b) 0 bs"

definition getBytes :: "nat \<Rightarrow> (u8 list) io" where
  "getBytes n r =
     (if 0 \<le> byteOffset r \<and> int n \<le> remaining r
      then Inr (take n (drop (nat (byteOffset r)) (buffer r)),
                r\<lparr>byteOffset := byteOffset r + int n\<rparr>)
      else Inl RangeError)"

definition peekUint8 :: "u8 io" where
  "peekUint8 r =
     (if 0 \<le> byteOffset r \<and> 1 \<le> remaining r
      then Inr (buffer r ! nat (byteOffset r), r)
      else Inl RangeError)"

definition discard :: "int \<Rightarrow> unit io" where
  "discard n r =
     (if remaining r < n then Inl RangeError
      else Inr ((), r\<lparr>byteOffset := byteOffset r + n\<rparr>))"

definition getUint8 :: "u8 io" where
  "getUint8 = bind (getBytes 1) (\<lambda>bs. ret (word_of_nat (be_nat bs)))"

definition getUint16 :: "u16 io" where
  "getUint16 = bind (getBytes 2) (\<lambda>bs. ret (word_of_nat (be_nat bs)))"

definition getUint32 :: "u32 io" where
  "getUint32 = bind (getBytes 4) (\<lambda>bs. ret (word_of_nat (be_nat bs)))"

definition getUint64 :: "u64 io" where
  "getUint64 = bind (getBytes 8) (\<lambda>bs. ret (word_of_nat (be_nat bs)))"

text \<open>The signed reads return the same bits; the caller reads them with \<open>sint\<close>.\<close>

definition getInt8 :: "u8 io" where
  "getInt8 = getUint8"

definition getInt16 :: "u16 io" where
  "getInt16 = getUint16"

definition getInt32 :: "u32 io" where
  "getInt32 = getUint32"

definition getInt64 :: "u64 io" where
  "getInt64 = getUint64"

text \<open>The floats are kept as their IEEE-754 bit patterns.\<close>

definition getFloat32 :: "u32 io" where
  "getFloat32 = getUint32"

definition getFloat64 :: "u64 io" where
  "getFloat64 = getUint64"

section \<open>Results and errors (result.ts)\<close>

text \<open>
  Each constructor of \<open>error\<close> is one of the messages the decoder builds, with the values
  the message prints.
\<close>

datatype error =
    BadValueForBool u8               \<comment> \<open>bad value for bool: value = 0x..\<close>
  | IntegerOverflowBits int nat      \<comment> \<open>integer overflow: value = ..; bits = ..\<close>
  | IntegerOverflowI64 int           \<comment> \<open>integer overflow: value = ..; type = i64\<close>
  | BadPrefixForInt u8               \<comment> \<open>bad prefix for int: prefix = 0x..\<close>
  | UnsignedIntegerOverflow int nat  \<comment> \<open>unsigned integer overflow: value = ..; bits = ..\<close>
  | BadPrefixForUnsignedInt u8       \<comment> \<open>bad prefix for unsigned int: prefix = 0x..\<close>
  | IntegerUnderflowU64 int          \<comment> \<open>integer underflow: value = ..; type = u64\<close>
  | FloatOverflowF32 u64             \<comment> \<open>float overflow: value = ..; type = f32\<close>
  | BadPrefixForFloat u8             \<comment> \<open>bad prefix for float: prefix = 0x..\<close>
  | InvalidLengthPrefix u8           \<comment> \<open>RangeError(E_INVALIDLENGTH + ": prefix = 0x..")\<close>

datatype 'a Result = Ok 'a | Err error

text \<open>
  Modelled from the spec: \<open>unwrap\<close> of result.ts, which section 4.5 of the specification
  describes: a failure aborts the calling context.
\<close>

definition unwrap :: "'a Result io \<Rightarrow> 'a io" where
  "unwrap m = bind m (\<lambda>res. case res of Ok x \<Rightarrow> ret x | Err e \<Rightarrow> (\<lambda>r. Inl Abort))"

text \<open>The error kinds of section 7 of the specification, and the kind of each message.\<close>

datatype error_kind =
  BadTag | IntegerOverflow | IntegerUnderflow | FloatOverflow | InvalidLength

fun kind_of :: "error \<Rightarrow> error_kind" where
  "kind_of (BadValueForBool t) = BadTag"
| "kind_of (IntegerOverflowBits v b) = IntegerOverflow"
| "kind_of (IntegerOverflowI64 v) = IntegerOverflow"
| "kind_of (BadPrefixForInt t) = BadTag"
| "kind_of (UnsignedIntegerOverflow v b) = IntegerOverflow"
| "kind_of (BadPrefixForUnsignedInt t) = BadTag"
| "kind_of (IntegerUnderflowU64 v) = IntegerUnderflow"
| "kind_of (FloatOverflowF32 v) = FloatOverflow"
| "kind_of (BadPrefixForFloat t) = BadTag"
| "kind_of (InvalidLengthPrefix t) = InvalidLength"

section \<open>The tag classifier (decoder.ts, \<open>SafeDecoder\<close>)\<close>

definition isFloat32 :: "u8 \<Rightarrow> bool" where
  "isFloat32 u = (u = FLOAT32)"

definition isFloat64 :: "u8 \<Rightarrow> bool" where
  "isFloat64 u = (u = FLOAT64)"

definition isFixedInt :: "u8 \<Rightarrow> bool" where
  "isFixedInt u = (drop_bit 7 u = 0)"

definition isNegativeFixedInt :: "u8 \<Rightarrow> bool" where
  "isNegativeFixedInt u = (u AND 0xe0 = NEGATIVE_FIXINT)"

definition isFixedMap :: "u8 \<Rightarrow> bool" where
  "isFixedMap u = (u AND 0xf0 = FIXMAP)"

definition isFixedArray :: "u8 \<Rightarrow> bool" where
  "isFixedArray u = (u AND 0xf0 = FIXARRAY)"

definition isFixedString :: "u8 \<Rightarrow> bool" where
  "isFixedString u = (u AND 0xe0 = FIXSTR)"

definition isNil :: "u8 \<Rightarrow> bool" where
  "isNil u = (u = NIL)"

section \<open>Numeric decoding (decoder.ts, \<open>SafeDecoder\<close>)\<close>

definition isNextNil :: "bool io" where
  "isNextNil =
     bind peekUint8 (\<lambda>b.
       if b = NIL then bind (discard 1) (\<lambda>_. ret True)
       else ret False)"

definition readBool :: "bool Result io" where
  "readBool =
     bind getUint8 (\<lambda>v.
       if v = TRUE then ret (Ok True)
       else if v = FALSE then ret (Ok False)
       else ret (Err (BadValueForBool v)))"

text \<open>
  \<open>readInt64\<close> returns an \<open>i64\<close>, read with \<open>sint\<close>; \<open>readUInt64\<close> returns a \<open>u64\<close>, read with
  \<open>uint\<close>. The comparison with \<open>i64.MAX_VALUE\<close> in the \<open>UINT64\<close> case is unsigned, as both
  sides are \<open>u64\<close>.
\<close>

definition readInt64 :: "u64 Result io" where
  "readInt64 =
     bind getUint8 (\<lambda>prefix.
       if isFixedInt prefix then ret (Ok (ucast prefix))
       else if isNegativeFixedInt prefix then ret (Ok (scast prefix))
       else if prefix = INT8 then bind getInt8 (\<lambda>v. ret (Ok (scast v)))
       else if prefix = INT16 then bind getInt16 (\<lambda>v. ret (Ok (scast v)))
       else if prefix = INT32 then bind getInt32 (\<lambda>v. ret (Ok (scast v)))
       else if prefix = INT64 then bind getInt64 (\<lambda>v. ret (Ok v))
       else if prefix = UINT8 then bind getUint8 (\<lambda>v. ret (Ok (ucast v)))
       else if prefix = UINT16 then bind getUint16 (\<lambda>v. ret (Ok (ucast v)))
       else if prefix = UINT32 then bind getUint32 (\<lambda>v. ret (Ok (ucast v)))
       else if prefix = UINT64 then
         bind getUint64 (\<lambda>v.
           if v \<le> 0x7fffffffffffffff then ret (Ok v)
           else ret (Err (IntegerOverflowI64 (uint v))))
       else ret (Err (BadPrefixForInt prefix)))"

definition readInt8 :: "u8 Result io" where
  "readInt8 =
     bind readInt64 (\<lambda>result.
       case result of
         Err e \<Rightarrow> ret (Err e)
       | Ok v \<Rightarrow>
           if sint v \<le> 127 \<and> - 128 \<le> sint v then ret (Ok (ucast v))
           else ret (Err (IntegerOverflowBits (sint v) 8)))"

definition readInt16 :: "u16 Result io" where
  "readInt16 =
     bind readInt64 (\<lambda>result.
       case result of
         Err e \<Rightarrow> ret (Err e)
       | Ok v \<Rightarrow>
           if sint v \<le> 32767 \<and> - 32768 \<le> sint v then ret (Ok (ucast v))
           else ret (Err (IntegerOverflowBits (sint v) 16)))"

definition readInt32 :: "u32 Result io" where
  "readInt32 =
     bind readInt64 (\<lambda>result.
       case result of
         Err e \<Rightarrow> ret (Err e)
       | Ok v \<Rightarrow>
           if sint v \<le> 2147483647 \<and> - 2147483648 \<le> sint v then ret (Ok (ucast v))
           else ret (Err (IntegerOverflowBits (sint v) 32)))"

definition readUInt64 :: "u64 Result io" where
  "readUInt64 =
     bind getUint8 (\<lambda>prefix.
       if isFixedInt prefix then ret (Ok (ucast prefix))
       else if isNegativeFixedInt prefix then ret (Err (BadPrefixForUnsignedInt prefix))
       else if prefix = UINT8 then bind getUint8 (\<lambda>v. ret (Ok (ucast v)))
       else if prefix = UINT16 then bind getUint16 (\<lambda>v. ret (Ok (ucast v)))
       else if prefix = UINT32 then bind getUint32 (\<lambda>v. ret (Ok (ucast v)))
       else if prefix = UINT64 then bind getUint64 (\<lambda>v. ret (Ok v))
       else if prefix = INT8 then
         bind getInt8 (\<lambda>v.
           if 0 \<le> sint v then ret (Ok (scast v))
           else ret (Err (IntegerUnderflowU64 (sint v))))
       else if prefix = INT16 then
         bind getInt16 (\<lambda>v.
           if 0 \<le> sint v then ret (Ok (scast v))
           else ret (Err (IntegerUnderflowU64 (sint v))))
       else if prefix = INT32 then
         bind getInt32 (\<lambda>v.
           if 0 \<le> sint v then ret (Ok (scast v))
           else ret (Err (IntegerUnderflowU64 (sint v))))
       else if prefix = INT64 then
         bind getInt64 (\<lambda>v.
           if 0 \<le> sint v then ret (Ok v)
           else ret (Err (IntegerUnderflowU64 (sint v))))
       else ret (Err (BadPrefixForUnsignedInt prefix)))"

definition readUInt8 :: "u8 Result io" where
  "readUInt8 =
     bind readUInt64 (\<lambda>result.
       case result of
         Err e \<Rightarrow> ret (Err e)
       | Ok v \<Rightarrow>
           if v \<le> 0xff then ret (Ok (ucast v))
           else ret (Err (UnsignedIntegerOverflow (uint v) 8)))"

definition readUInt16 :: "u16 Result io" where
  "readUInt16 =
     bind readUInt64 (\<lambda>result.
       case result of
         Err e \<Rightarrow> ret (Err e)
       | Ok v \<Rightarrow>
           if v \<le> 0xffff then ret (Ok (ucast v))
           else ret (Err (UnsignedIntegerOverflow (uint v) 16)))"

definition readUInt32 :: "u32 Result io" where
  "readUInt32 =
     bind readUInt64 (\<lambda>result.
       case result of
         Err e \<Rightarrow> ret (Err e)
       | Ok v \<Rightarrow>
           if v \<le> 0xffffffff then ret (Ok (ucast v))
           else ret (Err (UnsignedIntegerOverflow (uint v) 32)))"

text \<open>
  The float readers compare and convert IEEE-754 values; that arithmetic is a parameter
  here: \<open>narrow\<close> is lines 348 to 358 of \<open>readFloat32\<close> (\<open>None\<close> where the source reports the
  float overflow) and \<open>widen\<close> is the cast \<open><f64>\<close> of an \<open>f32\<close>. What the readers do with the
  tag is modelled as it is.
\<close>

definition readFloat32 :: "(u64 \<Rightarrow> u32 option) \<Rightarrow> u32 Result io" where
  "readFloat32 narrow =
     bind getUint8 (\<lambda>prefix.
       if isFloat32 prefix then bind getFloat32 (\<lambda>v. ret (Ok v))
       else if isFloat64 prefix then
         bind getFloat64 (\<lambda>v.
           case narrow v of
             Some x \<Rightarrow> ret (Ok x)
           | None \<Rightarrow> ret (Err (FloatOverflowF32 v)))
       else ret (Err (BadPrefixForFloat prefix)))"

definition readFloat64 :: "(u32 \<Rightarrow> u64) \<Rightarrow> u64 Result io" where
  "readFloat64 widen =
     bind getUint8 (\<lambda>prefix.
       if isFloat64 prefix then bind getFloat64 (\<lambda>v. ret (Ok v))
       else if isFloat32 prefix then bind getFloat32 (\<lambda>v. ret (Ok (widen v)))
       else ret (Err (BadPrefixForFloat prefix)))"

section \<open>Strings, binary data and container sizes (decoder.ts, \<open>SafeDecoder\<close>)\<close>

definition readStringLength :: "u32 Result io" where
  "readStringLength =
     bind getUint8 (\<lambda>leadByte.
       if isFixedString leadByte then ret (Ok (ucast (leadByte AND 0x1f)))
       else if isFixedArray leadByte then
         ret (Ok (ucast (leadByte AND FOUR_LEAST_SIG_BITS_IN_BYTE)))
       else if leadByte = STR8 then bind getUint8 (\<lambda>v. ret (Ok (ucast v)))
       else if leadByte = STR16 then bind getUint16 (\<lambda>v. ret (Ok (ucast v)))
       else if leadByte = STR32 then bind getUint32 (\<lambda>v. ret (Ok v))
       else ret (Err (InvalidLengthPrefix leadByte)))"

text \<open>\<open>String.UTF8.decode\<close> is the parameter \<open>utf8\<close>.\<close>

definition readString :: "(u8 list \<Rightarrow> 's) \<Rightarrow> 's Result io" where
  "readString utf8 =
     bind readStringLength (\<lambda>result.
       case result of
         Err e \<Rightarrow> ret (Err e)
       | Ok strLen \<Rightarrow> bind (getBytes (unat strLen)) (\<lambda>bs. ret (Ok (utf8 bs))))"

definition readBinLength :: "u32 Result io" where
  "readBinLength =
     bind isNextNil (\<lambda>nil.
       if nil then ret (Ok 0)
       else
         bind getUint8 (\<lambda>leadByte.
           if isFixedArray leadByte then
             ret (Ok (ucast (leadByte AND FOUR_LEAST_SIG_BITS_IN_BYTE)))
           else if leadByte = BIN8 then bind getUint8 (\<lambda>v. ret (Ok (ucast v)))
           else if leadByte = BIN16 then bind getUint16 (\<lambda>v. ret (Ok (ucast v)))
           else if leadByte = BIN32 then bind getUint32 (\<lambda>v. ret (Ok v))
           else ret (Err (InvalidLengthPrefix leadByte))))"

definition readByteArray :: "(u8 list) Result io" where
  "readByteArray =
     bind readBinLength (\<lambda>result.
       case result of
         Err e \<Rightarrow> ret (Err e)
       | Ok arrLength \<Rightarrow> bind (getBytes (unat arrLength)) (\<lambda>bs. ret (Ok bs)))"

definition readArraySize :: "u32 Result io" where
  "readArraySize =
     bind getUint8 (\<lambda>leadByte.
       if isFixedArray leadByte then
         ret (Ok (ucast (leadByte AND FOUR_LEAST_SIG_BITS_IN_BYTE)))
       else if leadByte = ARRAY16 then bind getUint16 (\<lambda>v. ret (Ok (ucast v)))
       else if leadByte = ARRAY32 then bind getUint32 (\<lambda>v. ret (Ok v))
       else if leadByte = NIL then ret (Ok 0)
       else ret (Err (InvalidLengthPrefix leadByte)))"

definition readMapSize :: "u32 Result io" where
  "readMapSize =
     bind getUint8 (\<lambda>leadByte.
       if isFixedMap leadByte then
         ret (Ok (ucast (leadByte AND FOUR_LEAST_SIG_BITS_IN_BYTE)))
       else if leadByte = MAP16 then bind getUint16 (\<lambda>v. ret (Ok (ucast v)))
       else if leadByte = MAP32 then bind getUint32 (\<lambda>v. ret (Ok v))
       else ret (Err (InvalidLengthPrefix leadByte)))"

section \<open>Structural skip (decoder.ts, \<open>SafeDecoder\<close>)\<close>

text \<open>
  \<open>getSize\<close> returns an \<open>i32\<close>. The casts \<open><i32>\<close> of an unsigned value keep its bits (after
  zero-extension, for the narrower ones), the product with 2 wraps at 32 bits, and the
  count handed to \<open>discard\<close> is the signed reading of that \<open>i32\<close>.
\<close>

definition getSize :: "u32 io" where
  "getSize =
     bind getUint8 (\<lambda>leadByte.
       if isNegativeFixedInt leadByte then ret 0
       else if isFixedInt leadByte then ret 0
       else if isFixedString leadByte then
         bind (discard (sint (ucast (leadByte AND 0x1f) :: u32))) (\<lambda>_. ret 0)
       else if isFixedArray leadByte then
         ret (ucast (leadByte AND FOUR_LEAST_SIG_BITS_IN_BYTE))
       else if isFixedMap leadByte then
         ret (2 * ucast (leadByte AND FOUR_LEAST_SIG_BITS_IN_BYTE))
       else if leadByte = NIL then ret 0
       else if leadByte = TRUE then ret 0
       else if leadByte = FALSE then ret 0
       else if leadByte = BIN8 then
         bind getUint8 (\<lambda>n. bind (discard (sint (ucast n :: u32))) (\<lambda>_. ret 0))
       else if leadByte = BIN16 then
         bind getUint16 (\<lambda>n. bind (discard (sint (ucast n :: u32))) (\<lambda>_. ret 0))
       else if leadByte = BIN32 then
         bind getUint32 (\<lambda>n. bind (discard (sint n)) (\<lambda>_. ret 0))
       else if leadByte = FLOAT32 then bind (discard 4) (\<lambda>_. ret 0)
       else if leadByte = FLOAT64 then bind (discard 8) (\<lambda>_. ret 0)
       else if leadByte = UINT8 then bind (discard 1) (\<lambda>_. ret 0)
       else if leadByte = UINT16 then bind (discard 2) (\<lambda>_. ret 0)
       else if leadByte = UINT32 then bind (discard 4) (\<lambda>_. ret 0)
       else if leadByte = UINT64 then bind (discard 8) (\<lambda>_. ret 0)
       else if leadByte = INT8 then bind (discard 1) (\<lambda>_. ret 0)
       else if leadByte = INT16 then bind (discard 2) (\<lambda>_. ret 0)
       else if leadByte = INT32 then bind (discard 4) (\<lambda>_. ret 0)
       else if leadByte = INT64 then bind (discard 8) (\<lambda>_. ret 0)
       else if leadByte = FIXEXT1 then bind (discard 2) (\<lambda>_. ret 0)
       else if leadByte = FIXEXT2 then bind (discard 3) (\<lambda>_. ret 0)
       else if leadByte = FIXEXT4 then bind (discard 5) (\<lambda>_. ret 0)
       else if leadByte = FIXEXT8 then bind (discard 9) (\<lambda>_. ret 0)
       else if leadByte = FIXEXT16 then bind (discard 17) (\<lambda>_. ret 0)
       else if leadByte = STR8 then
         bind getUint8 (\<lambda>n. bind (discard (sint (ucast n :: u32))) (\<lambda>_. ret 0))
       else if leadByte = STR16 then
         bind getUint16 (\<lambda>n. bind (discard (sint (ucast n :: u32))) (\<lambda>_. ret 0))
       else if leadByte = STR32 then
         bind getUint32 (\<lambda>n. bind (discard (sint n)) (\<lambda>_. ret 0))
       else if leadByte = ARRAY16 then bind getUint16 (\<lambda>n. ret (ucast n))
       else if leadByte = ARRAY32 then bind getUint32 (\<lambda>n. ret n)
       else if leadByte = MAP16 then bind getUint16 (\<lambda>n. ret (2 * ucast n))
       else if leadByte = MAP32 then bind getUint32 (\<lambda>n. ret (2 * n))
       else (\<lambda>r. Inl (TypeError leadByte)))"

text \<open>
  \<open>skip\<close> calls itself once for each object to discard, and a cursor that a negative count
  has moved back can make it do so without end. The first argument bounds the calls and the
  turns of the loop still allowed; \<open>None\<close> says that the bound was reached.
\<close>

fun skip :: "nat \<Rightarrow> DataReader \<Rightarrow> (exn + unit \<times> DataReader) option"
  and skip_loop :: "nat \<Rightarrow> u32 \<Rightarrow> DataReader \<Rightarrow> (exn + unit \<times> DataReader) option"
where
  "skip 0 r = None"
| "skip (Suc fuel) r =
     (case getSize r of
        Inl e \<Rightarrow> Some (Inl e)
      | Inr (numberOfObjectsToDiscard, r') \<Rightarrow> skip_loop fuel numberOfObjectsToDiscard r')"
| "skip_loop 0 n r = None"
| "skip_loop (Suc fuel) n r =
     (if 0 < sint n then
        (case skip fuel r of
           None \<Rightarrow> None
         | Some (Inl e) \<Rightarrow> Some (Inl e)
         | Some (Inr (u, r')) \<Rightarrow> skip_loop fuel (n - 1) r')
      else Some (Inr ((), r)))"

section \<open>Generic array decoding (decoder.ts, \<open>SafeDecoder\<close> and \<open>Decoder\<close>)\<close>

text \<open>
  The element decoder has the type \<open>(decoder, i?: u32) => Result<T>\<close>: its index is optional,
  here a \<open>u32 option\<close>, \<open>None\<close> when the call leaves it out. The loop counter is a \<open>u32\<close> that
  stays below \<open>size\<close>, so \<open>i++\<close> does not wrap.
\<close>

function readArray_loop ::
  "(u32 option \<Rightarrow> 'a Result io) \<Rightarrow> u32 \<Rightarrow> u32 \<Rightarrow> 'a list \<Rightarrow> ('a list) Result io"
where
  "readArray_loop fn sz i a r =
     (if i < sz then
        (case fn (Some i) r of
           Inl x \<Rightarrow> Inl x
         | Inr (Err e, r') \<Rightarrow> Inr (Err e, r')
         | Inr (Ok item, r') \<Rightarrow> readArray_loop fn sz (i + 1) (a @ [item]) r')
      else Inr (Ok a, r))"
  by pat_completeness auto
termination
  apply (relation "measure (\<lambda>(fn, sz, i, a, r). unat sz - unat i)")
   apply simp
  apply simp
  apply unat_arith
  done

definition readArray :: "(u32 option \<Rightarrow> 'a Result io) \<Rightarrow> ('a list) Result io" where
  "readArray fn =
     bind readArraySize (\<lambda>result.
       case result of
         Err e \<Rightarrow> ret (Err e)
       | Ok sz \<Rightarrow> readArray_loop fn sz 0 [])"

text \<open>
  \<open>readNullableArray\<close> returns \<open>Array<T> | null\<close>, here a \<open>'a list option\<close>. A \<open>Map<K, V>\<close> is a
  partial function from keys to values: \<open>m.set(key, value)\<close> overwrites the entry of \<open>key\<close>.
\<close>

definition readNullableArray ::
  "(u32 option \<Rightarrow> 'a Result io) \<Rightarrow> ('a list option) Result io"
where
  "readNullableArray fn =
     bind isNextNil (\<lambda>nil.
       if nil then ret (Ok None)
       else
         bind (readArray fn) (\<lambda>result.
           case result of
             Ok a \<Rightarrow> ret (Ok (Some a))
           | Err e \<Rightarrow> ret (Err e)))"

function readMap_loop ::
  "(u32 option \<Rightarrow> 'k Result io) \<Rightarrow> (u32 option \<Rightarrow> 'v Result io) \<Rightarrow> u32 \<Rightarrow> u32
    \<Rightarrow> ('k \<rightharpoonup> 'v) \<Rightarrow> ('k \<rightharpoonup> 'v) Result io"
where
  "readMap_loop keyFn valueFn sz i m r =
     (if i < sz then
        (case keyFn (Some i) r of
           Inl x \<Rightarrow> Inl x
         | Inr (Err e, r') \<Rightarrow> Inr (Err e, r')
         | Inr (Ok key, r') \<Rightarrow>
             (case valueFn (Some i) r' of
                Inl x \<Rightarrow> Inl x
              | Inr (Err e, r'') \<Rightarrow> Inr (Err e, r'')
              | Inr (Ok val, r'') \<Rightarrow>
                  readMap_loop keyFn valueFn sz (i + 1) (m(key \<mapsto> val)) r''))
      else Inr (Ok m, r))"
  by pat_completeness auto
termination
  apply (relation "measure (\<lambda>(keyFn, valueFn, sz, i, m, r). unat sz - unat i)")
   apply simp
  apply simp
  apply unat_arith
  done

definition readMap ::
  "(u32 option \<Rightarrow> 'k Result io) \<Rightarrow> (u32 option \<Rightarrow> 'v Result io)
    \<Rightarrow> ('k \<rightharpoonup> 'v) Result io"
where
  "readMap keyFn valueFn =
     bind readMapSize (\<lambda>result.
       case result of
         Err e \<Rightarrow> ret (Err e)
       | Ok sz \<Rightarrow> readMap_loop keyFn valueFn sz 0 Map.empty)"

definition readNullableMap ::
  "(u32 option \<Rightarrow> 'k Result io) \<Rightarrow> (u32 option \<Rightarrow> 'v Result io)
    \<Rightarrow> (('k \<rightharpoonup> 'v) option) Result io"
where
  "readNullableMap keyFn valueFn =
     bind isNextNil (\<lambda>nil.
       if nil then ret (Ok None)
       else
         bind (readMap keyFn valueFn) (\<lambda>result.
           case result of
             Ok m \<Rightarrow> ret (Ok (Some m))
           | Err e \<Rightarrow> ret (Err e)))"

text \<open>
  The facade \<open>Decoder\<close>: \<open>readArraySize\<close> unwraps the result of the \<open>SafeDecoder\<close>, and
  \<open>readArray\<close> calls \<open>fn(this)\<close>, with no index.
\<close>

definition Decoder_readArraySize :: "u32 io" where
  "Decoder_readArraySize = unwrap readArraySize"

function Decoder_readArray_loop ::
  "(u32 option \<Rightarrow> 'a io) \<Rightarrow> u32 \<Rightarrow> u32 \<Rightarrow> 'a list \<Rightarrow> ('a list) io"
where
  "Decoder_readArray_loop fn sz i a r =
     (if i < sz then
        (case fn None r of
           Inl x \<Rightarrow> Inl x
         | Inr (item, r') \<Rightarrow> Decoder_readArray_loop fn sz (i + 1) (a @ [item]) r')
      else Inr (a, r))"
  by pat_completeness auto
termination
  apply (relation "measure (\<lambda>(fn, sz, i, a, r). unat sz - unat i)")
   apply simp
  apply simp
  apply unat_arith
  done

definition Decoder_readArray :: "(u32 option \<Rightarrow> 'a io) \<Rightarrow> ('a list) io" where
  "Decoder_readArray fn =
     bind Decoder_readArraySize (\<lambda>sz. Decoder_readArray_loop fn sz 0 [])"

section \<open>The wire format\<close>

text \<open>
  Modelled from the spec: the encoder is not part of the sources. A \<open>msg\<close> is one encoded
  value in one of the forms of sections 4.1 and 6 of the specification, \<open>encode\<close> gives its
  bytes, and \<open>well_formed\<close> says that its payload fits its form. A numeric payload is kept
  as its big-endian bytes.
\<close>

datatype numkind =
  KFloat32 | KFloat64 | KUInt8 | KUInt16 | KUInt32 | KUInt64 | KInt8 | KInt16 | KInt32 | KInt64

datatype strw = SFix | S8 | S16 | S32
datatype binw = B8 | B16 | B32
datatype extw = E1 | E2 | E4 | E8 | E16
datatype cw = CFix | C16 | C32

datatype msg =
    MNil
  | MBool bool
  | MPosFixInt u8
  | MNegFixInt u8
  | MNum numkind "u8 list"
  | MStr strw "u8 list"
  | MBin binw "u8 list"
  | MFixExt extw u8 "u8 list"
  | MArray cw "msg list"
  | MMap cw "(msg \<times> msg) list"

fun be_bytes :: "nat \<Rightarrow> nat \<Rightarrow> u8 list" where
  "be_bytes 0 n = []"
| "be_bytes (Suc k) n = be_bytes k (n div 256) @ [word_of_nat n]"

fun num_tag :: "numkind \<Rightarrow> u8" where
  "num_tag KFloat32 = FLOAT32"
| "num_tag KFloat64 = FLOAT64"
| "num_tag KUInt8 = UINT8"
| "num_tag KUInt16 = UINT16"
| "num_tag KUInt32 = UINT32"
| "num_tag KUInt64 = UINT64"
| "num_tag KInt8 = INT8"
| "num_tag KInt16 = INT16"
| "num_tag KInt32 = INT32"
| "num_tag KInt64 = INT64"

fun num_width :: "numkind \<Rightarrow> nat" where
  "num_width KFloat32 = 4"
| "num_width KFloat64 = 8"
| "num_width KUInt8 = 1"
| "num_width KUInt16 = 2"
| "num_width KUInt32 = 4"
| "num_width KUInt64 = 8"
| "num_width KInt8 = 1"
| "num_width KInt16 = 2"
| "num_width KInt32 = 4"
| "num_width KInt64 = 8"

fun str_header :: "strw \<Rightarrow> nat \<Rightarrow> u8 list" where
  "str_header SFix n = [FIXSTR OR word_of_nat n]"
| "str_header S8 n = STR8 # be_bytes 1 n"
| "str_header S16 n = STR16 # be_bytes 2 n"
| "str_header S32 n = STR32 # be_bytes 4 n"

fun str_limit :: "strw \<Rightarrow> nat" where
  "str_limit SFix = 2 ^ 5"
| "str_limit S8 = 2 ^ 8"
| "str_limit S16 = 2 ^ 16"
| "str_limit S32 = 2 ^ 32"

fun bin_header :: "binw \<Rightarrow> nat \<Rightarrow> u8 list" where
  "bin_header B8 n = BIN8 # be_bytes 1 n"
| "bin_header B16 n = BIN16 # be_bytes 2 n"
| "bin_header B32 n = BIN32 # be_bytes 4 n"

fun bin_limit :: "binw \<Rightarrow> nat" where
  "bin_limit B8 = 2 ^ 8"
| "bin_limit B16 = 2 ^ 16"
| "bin_limit B32 = 2 ^ 32"

fun ext_tag :: "extw \<Rightarrow> u8" where
  "ext_tag E1 = FIXEXT1"
| "ext_tag E2 = FIXEXT2"
| "ext_tag E4 = FIXEXT4"
| "ext_tag E8 = FIXEXT8"
| "ext_tag E16 = FIXEXT16"

fun ext_width :: "extw \<Rightarrow> nat" where
  "ext_width E1 = 1"
| "ext_width E2 = 2"
| "ext_width E4 = 4"
| "ext_width E8 = 8"
| "ext_width E16 = 16"

fun array_header :: "cw \<Rightarrow> nat \<Rightarrow> u8 list" where
  "array_header CFix n = [FIXARRAY OR word_of_nat n]"
| "array_header C16 n = ARRAY16 # be_bytes 2 n"
| "array_header C32 n = ARRAY32 # be_bytes 4 n"

fun map_header :: "cw \<Rightarrow> nat \<Rightarrow> u8 list" where
  "map_header CFix n = [FIXMAP OR word_of_nat n]"
| "map_header C16 n = MAP16 # be_bytes 2 n"
| "map_header C32 n = MAP32 # be_bytes 4 n"

fun cw_limit :: "cw \<Rightarrow> nat" where
  "cw_limit CFix = 2 ^ 4"
| "cw_limit C16 = 2 ^ 16"
| "cw_limit C32 = 2 ^ 32"

fun encode :: "msg \<Rightarrow> u8 list" where
  "encode MNil = [NIL]"
| "encode (MBool b) = [if b then TRUE else FALSE]"
| "encode (MPosFixInt x) = [x]"
| "encode (MNegFixInt x) = [x]"
| "encode (MNum k bs) = num_tag k # bs"
| "encode (MStr w bs) = str_header w (length bs) @ bs"
| "encode (MBin w bs) = bin_header w (length bs) @ bs"
| "encode (MFixExt w t bs) = ext_tag w # t # bs"
| "encode (MArray w xs) = array_header w (length xs) @ concat (map encode xs)"
| "encode (MMap w kvs) =
     map_header w (length kvs) @ concat (map (\<lambda>(k, v). encode k @ encode v) kvs)"

fun well_formed :: "msg \<Rightarrow> bool" where
  "well_formed MNil = True"
| "well_formed (MBool b) = True"
| "well_formed (MPosFixInt x) = (x \<le> 0x7f)"
| "well_formed (MNegFixInt x) = (0xe0 \<le> x)"
| "well_formed (MNum k bs) = (length bs = num_width k)"
| "well_formed (MStr w bs) = (length bs < str_limit w)"
| "well_formed (MBin w bs) = (length bs < bin_limit w)"
| "well_formed (MFixExt w t bs) = (length bs = ext_width w)"
| "well_formed (MArray w xs) = (length xs < cw_limit w \<and> list_all well_formed xs)"
| "well_formed (MMap w kvs) =
     (length kvs < cw_limit w \<and> list_all (\<lambda>(k, v). well_formed k \<and> well_formed v) kvs)"

text \<open>
  The child objects of a value, in the order of their bytes: the elements of an array, the
  key and the value of each pair of a map, none for a scalar.
\<close>

fun children :: "msg \<Rightarrow> msg list" where
  "children (MArray w xs) = xs"
| "children (MMap w kvs) = concat (map (\<lambda>(k, v). [k, v]) kvs)"
| "children v = []"

text \<open>
  The bytes of a value that are its own: the tag, the length prefix and the payload; for
  an array or a map, the header alone.
\<close>

fun own_bytes :: "msg \<Rightarrow> u8 list" where
  "own_bytes (MArray w xs) = array_header w (length xs)"
| "own_bytes (MMap w kvs) = map_header w (length kvs)"
| "own_bytes v = encode v"

text \<open>The integer that a value of an integer form encodes.\<close>

definition twos :: "nat \<Rightarrow> nat \<Rightarrow> int" where
  "twos bits n = (if n < 2 ^ (bits - 1) then int n else int n - 2 ^ bits)"

fun int_of_msg :: "msg \<Rightarrow> int option" where
  "int_of_msg (MPosFixInt x) = Some (uint x)"
| "int_of_msg (MNegFixInt x) = Some (uint x - 256)"
| "int_of_msg (MNum KUInt8 bs) = Some (int (be_nat bs))"
| "int_of_msg (MNum KUInt16 bs) = Some (int (be_nat bs))"
| "int_of_msg (MNum KUInt32 bs) = Some (int (be_nat bs))"
| "int_of_msg (MNum KUInt64 bs) = Some (int (be_nat bs))"
| "int_of_msg (MNum KInt8 bs) = Some (twos 8 (be_nat bs))"
| "int_of_msg (MNum KInt16 bs) = Some (twos 16 (be_nat bs))"
| "int_of_msg (MNum KInt32 bs) = Some (twos 32 (be_nat bs))"
| "int_of_msg (MNum KInt64 bs) = Some (twos 64 (be_nat bs))"
| "int_of_msg v = None"

text \<open>The tags of the integer forms: fixint, negative fixint, uint8 to uint64, int8 to int64.\<close>

definition int_tag :: "u8 \<Rightarrow> bool" where
  "int_tag t = (t \<le> 0x7f \<or> 0xe0 \<le> t \<or> (0xcc \<le> t \<and> t \<le> 0xd3))"

text \<open>
  The tags that each reader accepts, as sections 4.2 and 4.3 of the specification list them:
  true and false for \<open>readBool\<close>; the integer forms but the negative fixint for the unsigned
  readers; float32 and float64 for the float readers; fixstr, str8 to str32 and the fixarray
  pattern for a string length; nil, bin8 to bin32 and the fixarray pattern for a binary
  length; fixarray, array16, array32 and nil for an array size; fixmap, map16 and map32 for a
  map size.
\<close>

definition bool_tag :: "u8 \<Rightarrow> bool" where
  "bool_tag t = (t = 0xc2 \<or> t = 0xc3)"

definition uint_tag :: "u8 \<Rightarrow> bool" where
  "uint_tag t = (t \<le> 0x7f \<or> (0xcc \<le> t \<and> t \<le> 0xd3))"

definition float_tag :: "u8 \<Rightarrow> bool" where
  "float_tag t = (t = 0xca \<or> t = 0xcb)"

definition string_length_tag :: "u8 \<Rightarrow> bool" where
  "string_length_tag t =
     ((0xa0 \<le> t \<and> t \<le> 0xbf) \<or> (0xd9 \<le> t \<and> t \<le> 0xdb) \<or> (0x90 \<le> t \<and> t \<le> 0x9f))"

definition bin_length_tag :: "u8 \<Rightarrow> bool" where
  "bin_length_tag t = (t = 0xc0 \<or> (0xc4 \<le> t \<and> t \<le> 0xc6) \<or> (0x90 \<le> t \<and> t \<le> 0x9f))"

definition array_size_tag :: "u8 \<Rightarrow> bool" where
  "array_size_tag t = ((0x90 \<le> t \<and> t \<le> 0x9f) \<or> t = 0xdc \<or> t = 0xdd \<or> t = 0xc0)"

definition map_size_tag :: "u8 \<Rightarrow> bool" where
  "map_size_tag t = ((0x80 \<le> t \<and> t \<le> 0x8f) \<or> t = 0xde \<or> t = 0xdf)"

section \<open>Cursor positions\<close>

text \<open>
  \<open>at_cursor r bs\<close>: the cursor is in the buffer and \<open>bs\<close> are the next bytes.
  \<open>advance r n\<close>: the same reader, \<open>n\<close> bytes further. \<open>resident r\<close>: the length of the
  buffer is an \<open>i32\<close>, that is below 2^31, as the \<open>byteLength\<close> of an \<open>ArrayBuffer\<close> is.
\<close>

definition at_cursor :: "DataReader \<Rightarrow> u8 list \<Rightarrow> bool" where
  "at_cursor r bs =
     (0 \<le> byteOffset r \<and> byteOffset r \<le> int (length (buffer r))
      \<and> take (length bs) (drop (nat (byteOffset r)) (buffer r)) = bs)"

definition advance :: "DataReader \<Rightarrow> nat \<Rightarrow> DataReader" where
  "advance r n = r\<lparr>byteOffset := byteOffset r + int n\<rparr>"

definition resident :: "DataReader \<Rightarrow> bool" where
  "resident r = (length (buffer r) < 2 ^ 31)"

text \<open>
  The generic array decoding in the specification's words: the element decoder is run on
  the indices in increasing order, each run starting where the one before stopped, and the
  first failure ends the sequence and is the result.
\<close>

fun decode_elements ::
  "(u32 option \<Rightarrow> 'a Result io) \<Rightarrow> nat list \<Rightarrow> ('a list) Result io"
where
  "decode_elements fn [] r = Inr (Ok [], r)"
| "decode_elements fn (i # is) r =
     (case fn (Some (word_of_nat i)) r of
        Inl x \<Rightarrow> Inl x
      | Inr (Err e, r') \<Rightarrow> Inr (Err e, r')
      | Inr (Ok item, r') \<Rightarrow>
          (case decode_elements fn is r' of
             Inl x \<Rightarrow> Inl x
           | Inr (Err e, r'') \<Rightarrow> Inr (Err e, r'')
           | Inr (Ok items, r'') \<Rightarrow> Inr (Ok (item # items), r'')))"

section \<open>Range checks of the narrower readers\<close>

text \<open>
  The narrowing of section 4.2 of the specification, as a relation between the outcome of
  the canonical 64-bit reader and the outcome of a narrower reader of \<open>bits\<close> bits: an
  exception or an error of the canonical reader is passed on; a value inside the range of
  the narrower type is returned with the same reading, at the same cursor; a value outside
  it gives the overflow error that carries the value and the width.
\<close>

definition range_checked_signed ::
  "nat \<Rightarrow> (exn + u64 Result \<times> DataReader) \<Rightarrow> (exn + 'a::len word Result \<times> DataReader) \<Rightarrow> bool"
where
  "range_checked_signed bits canonical narrower =
     (case canonical of
        Inl x \<Rightarrow> narrower = Inl x
      | Inr (Err e, r') \<Rightarrow> narrower = Inr (Err e, r')
      | Inr (Ok w, r') \<Rightarrow>
          if - (2 ^ (bits - 1)) \<le> sint w \<and> sint w < 2 ^ (bits - 1)
          then narrower = Inr (Ok (word_of_int (sint w)), r')
             \<and> sint (word_of_int (sint w) :: 'a word) = sint w
          else narrower = Inr (Err (IntegerOverflowBits (sint w) bits), r')
             \<and> kind_of (IntegerOverflowBits (sint w) bits) = IntegerOverflow)"

definition range_checked_unsigned ::
  "nat \<Rightarrow> (exn + u64 Result \<times> DataReader) \<Rightarrow> (exn + 'a::len word Result \<times> DataReader) \<Rightarrow> bool"
where
  "range_checked_unsigned bits canonical narrower =
     (case canonical of
        Inl x \<Rightarrow> narrower = Inl x
      | Inr (Err e, r') \<Rightarrow> narrower = Inr (Err e, r')
      | Inr (Ok w, r') \<Rightarrow>
          if uint w < 2 ^ bits
          then narrower = Inr (Ok (word_of_int (uint w)), r')
             \<and> uint (word_of_int (uint w) :: 'a word) = uint w
          else narrower = Inr (Err (UnsignedIntegerOverflow (uint w) bits), r')
             \<and> kind_of (UnsignedIntegerOverflow (uint w) bits) = IntegerOverflow)"

section \<open>Bytes as numbers\<close>

lemma unat_u8_less: "unat (u::u8) < 256"
  using unsigned_less [of u, where ?'a=nat] by simp

lemma unat_and_e0: "unat ((u::u8) AND 0xe0) = unat u div 32 * 32"
proof -
  have e: "(0xe0::u8) = push_bit 5 (mask 3)" by (simp add: mask_eq_exp_minus_1)
  have "u AND 0xe0 = push_bit 5 (drop_bit 5 u)"
    unfolding e by (rule bit_word_eqI) (auto simp add: bit_simps)
  then show ?thesis
    using unat_u8_less [of u]
    by (simp add: drop_bit_eq_div push_bit_eq_mult unat_div_distrib unat_word_ariths)
qed

lemma unat_and_f0: "unat ((u::u8) AND 0xf0) = unat u div 16 * 16"
proof -
  have e: "(0xf0::u8) = push_bit 4 (mask 4)" by (simp add: mask_eq_exp_minus_1)
  have "u AND 0xf0 = push_bit 4 (drop_bit 4 u)"
    unfolding e by (rule bit_word_eqI) (auto simp add: bit_simps)
  then show ?thesis
    using unat_u8_less [of u]
    by (simp add: drop_bit_eq_div push_bit_eq_mult unat_div_distrib unat_word_ariths)
qed

lemma unat_and_1f: "unat ((u::u8) AND 0x1f) = unat u mod 32"
proof -
  have e: "(0x1f::u8) = mask 5" by (simp add: mask_eq_exp_minus_1)
  show ?thesis
    unfolding e by (simp add: take_bit_eq_mod unat_mod_distrib flip: take_bit_eq_mask)
qed

lemma unat_and_0f: "unat ((u::u8) AND 0x0f) = unat u mod 16"
proof -
  have e: "(0x0f::u8) = mask 4" by (simp add: mask_eq_exp_minus_1)
  show ?thesis
    unfolding e by (simp add: take_bit_eq_mod unat_mod_distrib flip: take_bit_eq_mask)
qed

lemma isFixedInt_unat: "isFixedInt u \<longleftrightarrow> unat u < 128"
  by (simp add: isFixedInt_def word_eq_iff_unsigned[where ?'a=nat] drop_bit_eq_div
      unat_div_distrib) arith

lemma isNegativeFixedInt_unat: "isNegativeFixedInt u \<longleftrightarrow> 224 \<le> unat u"
  using unat_u8_less [of u]
  by (simp add: isNegativeFixedInt_def NEGATIVE_FIXINT_def
      word_eq_iff_unsigned[where ?'a=nat] unat_and_e0) arith

lemma isFixedString_unat: "isFixedString u \<longleftrightarrow> 160 \<le> unat u \<and> unat u < 192"
  using unat_u8_less [of u]
  by (simp add: isFixedString_def FIXSTR_def word_eq_iff_unsigned[where ?'a=nat]
      unat_and_e0) arith

lemma isFixedMap_unat: "isFixedMap u \<longleftrightarrow> 128 \<le> unat u \<and> unat u < 144"
  using unat_u8_less [of u]
  by (simp add: isFixedMap_def FIXMAP_def word_eq_iff_unsigned[where ?'a=nat]
      unat_and_f0) arith

lemma isFixedArray_unat: "isFixedArray u \<longleftrightarrow> 144 \<le> unat u \<and> unat u < 160"
  using unat_u8_less [of u]
  by (simp add: isFixedArray_def FIXARRAY_def word_eq_iff_unsigned[where ?'a=nat]
      unat_and_f0) arith

lemma top_bit_unat: "(\<not> bit (u::u8) 7) = (unat u < 128)"
proof -
  have "bit u 7 = bit (unat u) 7" by (simp add: bit_unsigned_iff)
  also have "\<dots> = odd (unat u div 128)" by (simp add: bit_iff_odd)
  finally have b: "bit u 7 = odd (unat u div 128)" .
  show ?thesis
  proof (cases "unat u < 128")
    case True
    then show ?thesis using b by simp
  next
    case False
    then have "unat u div 128 = 1" using unat_u8_less [of u] by arith
    then show ?thesis using b False by simp
  qed
qed

lemma drop_bit_5_unat: "(drop_bit 5 (u::u8) = c) = (unat u div 32 = unat c)"
  by (simp add: word_eq_iff_unsigned[where ?'a=nat] drop_bit_eq_div unat_div_distrib)

lemma drop_bit_4_unat: "(drop_bit 4 (u::u8) = c) = (unat u div 16 = unat c)"
  by (simp add: word_eq_iff_unsigned[where ?'a=nat] drop_bit_eq_div unat_div_distrib)

section \<open>The tag classifier\<close>

text \<open>
  C5. Each classifier of a fixed-range family is true exactly on the bytes of its range,
  given both as the top bits and as the interval of byte values: fixint is top bit 0
  (0x00 to 0x7f), negative fixint is top three bits 111 (0xe0 to 0xff), fixmap is top four
  bits 1000 (0x80 to 0x8f), fixarray is top four bits 1001 (0x90 to 0x9f), fixstr is top
  three bits 101 (0xa0 to 0xbf); and no byte is a fixint and also a fixmap, a fixarray or
  a fixstr.
\<close>

theorem classifier_ranges:
  "(isFixedInt u = (\<not> bit u 7)) \<and> (isFixedInt u = (u \<le> 0x7f))
   \<and> (isNegativeFixedInt u = (drop_bit 5 u = 7)) \<and> (isNegativeFixedInt u = (0xe0 \<le> u))
   \<and> (isFixedMap u = (drop_bit 4 u = 8)) \<and> (isFixedMap u = (0x80 \<le> u \<and> u \<le> 0x8f))
   \<and> (isFixedArray u = (drop_bit 4 u = 9)) \<and> (isFixedArray u = (0x90 \<le> u \<and> u \<le> 0x9f))
   \<and> (isFixedString u = (drop_bit 5 u = 5)) \<and> (isFixedString u = (0xa0 \<le> u \<and> u \<le> 0xbf))
   \<and> \<not> (isFixedInt u \<and> isFixedMap u)
   \<and> \<not> (isFixedInt u \<and> isFixedArray u)
   \<and> \<not> (isFixedInt u \<and> isFixedString u)"
proof -
  have lt: "unat u < 256" by (rule unat_u8_less)
  have i1: "isFixedInt u = (\<not> bit u 7)"
    by (simp add: isFixedInt_unat top_bit_unat)
  have i2: "isFixedInt u = (u \<le> 0x7f)"
    by (simp add: isFixedInt_unat word_le_nat_alt) arith
  have n1: "isNegativeFixedInt u = (drop_bit 5 u = 7)"
    using lt by (simp add: isNegativeFixedInt_unat drop_bit_5_unat) arith
  have n2: "isNegativeFixedInt u = (0xe0 \<le> u)"
    by (simp add: isNegativeFixedInt_unat word_le_nat_alt)
  have m1: "isFixedMap u = (drop_bit 4 u = 8)"
    using lt by (simp add: isFixedMap_unat drop_bit_4_unat) arith
  have m2: "isFixedMap u = (0x80 \<le> u \<and> u \<le> 0x8f)"
    by (simp add: isFixedMap_unat word_le_nat_alt) arith
  have a1: "isFixedArray u = (drop_bit 4 u = 9)"
    using lt by (simp add: isFixedArray_unat drop_bit_4_unat) arith
  have a2: "isFixedArray u = (0x90 \<le> u \<and> u \<le> 0x9f)"
    by (simp add: isFixedArray_unat word_le_nat_alt) arith
  have s1: "isFixedString u = (drop_bit 5 u = 5)"
    using lt by (simp add: isFixedString_unat drop_bit_5_unat) arith
  have s2: "isFixedString u = (0xa0 \<le> u \<and> u \<le> 0xbf)"
    by (simp add: isFixedString_unat word_le_nat_alt) arith
  have o1: "\<not> (isFixedInt u \<and> isFixedMap u)"
    by (simp add: isFixedInt_unat isFixedMap_unat)
  have o2: "\<not> (isFixedInt u \<and> isFixedArray u)"
    by (simp add: isFixedInt_unat isFixedArray_unat)
  have o3: "\<not> (isFixedInt u \<and> isFixedString u)"
    by (simp add: isFixedInt_unat isFixedString_unat)
  from i1 i2 n1 n2 m1 m2 a1 a2 s1 s2 o1 o2 o3 show ?thesis by blast
qed

section \<open>The cursor\<close>

lemma bind_Inr: "m r = Inr (x, r') \<Longrightarrow> bind m f r = f x r'"
  by (simp add: bind_def)

lemma bind_Inl: "m r = Inl e \<Longrightarrow> bind m f r = Inl e"
  by (simp add: bind_def)

lemma at_cursor_length: "at_cursor r bs \<Longrightarrow> int (length bs) \<le> remaining r"
proof -
  assume a: "at_cursor r bs"
  let ?d = "drop (nat (byteOffset r)) (buffer r)"
  from a have "length (take (length bs) ?d) = length bs" by (simp add: at_cursor_def)
  then have "length bs \<le> length (buffer r) - nat (byteOffset r)" by simp
  moreover from a have "0 \<le> byteOffset r" and "byteOffset r \<le> int (length (buffer r))"
    by (simp_all add: at_cursor_def)
  ultimately show ?thesis unfolding remaining_def by linarith
qed

lemma at_cursor_prefix: "at_cursor r (bs @ cs) \<Longrightarrow> at_cursor r bs"
proof -
  assume a: "at_cursor r (bs @ cs)"
  let ?d = "drop (nat (byteOffset r)) (buffer r)"
  from a have t: "take (length bs + length cs) ?d = bs @ cs" and o: "0 \<le> byteOffset r"
    and e: "byteOffset r \<le> int (length (buffer r))"
    by (simp_all add: at_cursor_def)
  have "take (length bs) ?d = take (length bs) (take (length bs + length cs) ?d)"
    by (simp add: min_def)
  also have "\<dots> = bs" by (simp add: t)
  finally show ?thesis using o e by (simp add: at_cursor_def)
qed

lemma at_cursor_advance: "at_cursor r (bs @ cs) \<Longrightarrow> at_cursor (advance r (length bs)) cs"
proof -
  assume a: "at_cursor r (bs @ cs)"
  let ?o = "nat (byteOffset r)"
  from a have t: "take (length bs + length cs) (drop ?o (buffer r)) = bs @ cs"
    and o: "0 \<le> byteOffset r"
    by (simp_all add: at_cursor_def)
  from a have "int (length (bs @ cs)) \<le> remaining r" by (rule at_cursor_length)
  then have e: "byteOffset r + int (length bs) \<le> int (length (buffer r))"
    by (simp add: remaining_def)
  have n: "nat (byteOffset r + int (length bs)) = length bs + ?o" using o by linarith
  have "take (length cs) (drop (length bs + ?o) (buffer r))
      = take (length cs) (drop (length bs) (drop ?o (buffer r)))"
    by (simp add: add.commute)
  also have "\<dots> = drop (length bs) (take (length bs + length cs) (drop ?o (buffer r)))"
    by (simp add: drop_take)
  also have "\<dots> = cs" by (simp add: t)
  finally show ?thesis using o e by (simp add: at_cursor_def advance_def n)
qed

lemma at_cursor_Cons: "at_cursor r (b # cs) \<Longrightarrow> at_cursor (advance r 1) cs"
  using at_cursor_advance [of r "[b]" cs] by simp

lemma advance_advance: "advance (advance r m) n = advance r (m + n)"
  by (simp add: advance_def)

lemma buffer_advance: "buffer (advance r n) = buffer r"
  by (simp add: advance_def)

lemma resident_advance: "resident (advance r n) = resident r"
  by (simp add: resident_def advance_def)

lemma getBytes_at:
  "at_cursor r (bs @ cs) \<Longrightarrow> getBytes (length bs) r = Inr (bs, advance r (length bs))"
proof -
  assume a: "at_cursor r (bs @ cs)"
  then have b: "at_cursor r bs" by (rule at_cursor_prefix)
  from b have "int (length bs) \<le> remaining r" by (rule at_cursor_length)
  with b show ?thesis by (simp add: getBytes_def at_cursor_def advance_def)
qed

lemma be_nat_snoc: "be_nat (bs @ [b]) = be_nat bs * 256 + unat b"
  by (simp add: be_nat_def)

lemma be_nat_single: "be_nat [b] = unat b"
  by (simp add: be_nat_def)

lemma be_nat_less: "be_nat bs < 256 ^ length bs"
proof (induction bs rule: rev_induct)
  case Nil
  then show ?case by (simp add: be_nat_def)
next
  case (snoc b bs)
  have "unat b < 256" by (rule unat_u8_less)
  with snoc have "be_nat bs * 256 + unat b < 256 ^ length bs * 256" by arith
  then show ?case by (simp add: be_nat_snoc)
qed

lemma length_be_bytes: "length (be_bytes k n) = k"
  by (induction k arbitrary: n) simp_all

lemma be_nat_be_bytes: "be_nat (be_bytes k n) = n mod 256 ^ k"
proof (induction k arbitrary: n)
  case 0
  then show ?case by (simp add: be_nat_def)
next
  case (Suc k)
  have "be_nat (be_bytes (Suc k) n) = (n div 256 mod 256 ^ k) * 256 + n mod 256"
    by (simp add: be_nat_snoc Suc unat_of_nat)
  also have "\<dots> = n mod (256 * 256 ^ k)"
    by (simp add: mod_mult2_eq)
  finally show ?case by simp
qed

lemma getUint8_at: "at_cursor r (b # cs) \<Longrightarrow> getUint8 r = Inr (b, advance r 1)"
  using getBytes_at [of r "[b]" cs]
  by (simp add: getUint8_def bind_def ret_def be_nat_single)

lemma getUint16_at:
  "at_cursor r (bs @ cs) \<Longrightarrow> length bs = 2
    \<Longrightarrow> getUint16 r = Inr (word_of_nat (be_nat bs), advance r 2)"
  using getBytes_at [of r bs cs] by (simp add: getUint16_def bind_def ret_def)

lemma getUint32_at:
  "at_cursor r (bs @ cs) \<Longrightarrow> length bs = 4
    \<Longrightarrow> getUint32 r = Inr (word_of_nat (be_nat bs), advance r 4)"
  using getBytes_at [of r bs cs] by (simp add: getUint32_def bind_def ret_def)

lemma getUint64_at:
  "at_cursor r (bs @ cs) \<Longrightarrow> length bs = 8
    \<Longrightarrow> getUint64 r = Inr (word_of_nat (be_nat bs), advance r 8)"
  using getBytes_at [of r bs cs] by (simp add: getUint64_def bind_def ret_def)

lemma peekUint8_at: "at_cursor r (b # cs) \<Longrightarrow> peekUint8 r = Inr (b, r)"
proof -
  assume a: "at_cursor r (b # cs)"
  then have b: "at_cursor r [b]" using at_cursor_prefix [of r "[b]" cs] by simp
  then have l: "1 \<le> remaining r" using at_cursor_length [of r "[b]"] by simp
  from b have o: "0 \<le> byteOffset r"
    and t: "take 1 (drop (nat (byteOffset r)) (buffer r)) = [b]"
    by (simp_all add: at_cursor_def)
  from l o have "nat (byteOffset r) < length (buffer r)" by (simp add: remaining_def)
  then have "drop (nat (byteOffset r)) (buffer r)
      = buffer r ! nat (byteOffset r) # drop (Suc (nat (byteOffset r))) (buffer r)"
    by (simp add: Cons_nth_drop_Suc)
  with t have "buffer r ! nat (byteOffset r) = b" by simp
  with l o show ?thesis by (simp add: peekUint8_def)
qed

lemma discard_at:
  "at_cursor r (bs @ cs) \<Longrightarrow> discard (int (length bs)) r = Inr ((), advance r (length bs))"
proof -
  assume "at_cursor r (bs @ cs)"
  then have "at_cursor r bs" by (rule at_cursor_prefix)
  then have "int (length bs) \<le> remaining r" by (rule at_cursor_length)
  then show ?thesis by (simp add: discard_def advance_def)
qed

lemma discard_1_at: "at_cursor r (b # cs) \<Longrightarrow> discard 1 r = Inr ((), advance r 1)"
  using discard_at [of r "[b]" cs] by simp

section \<open>Nil compatibility\<close>

text \<open>
  C6. When the next byte is the nil tag, \<open>readArraySize\<close> gives the size 0,
  \<open>readMapSize\<close> fails with the invalid-length error, and \<open>isNextNil\<close> returns true; each
  of them leaves the cursor one byte further. When the next byte is any other byte,
  \<open>isNextNil\<close> returns false and the reader is unchanged.
\<close>

theorem nil_compatibility:
  assumes "at_cursor r [b]"
  shows "(b = NIL \<longrightarrow>
            readArraySize r = Inr (Ok 0, advance r 1)
          \<and> readMapSize r = Inr (Err (InvalidLengthPrefix NIL), advance r 1)
          \<and> kind_of (InvalidLengthPrefix NIL) = InvalidLength
          \<and> isNextNil r = Inr (True, advance r 1))
       \<and> (b \<noteq> NIL \<longrightarrow> isNextNil r = Inr (False, r))"
proof -
  from assms have g: "getUint8 r = Inr (b, advance r 1)" by (rule getUint8_at)
  from assms have p: "peekUint8 r = Inr (b, r)" by (rule peekUint8_at)
  from assms have d: "discard 1 r = Inr ((), advance r 1)" by (rule discard_1_at)
  have a: "b = NIL \<Longrightarrow> readArraySize r = Inr (Ok 0, advance r 1)"
    using g by (simp add: readArraySize_def bind_def ret_def isFixedArray_unat Format_defs)
  have m: "b = NIL \<Longrightarrow> readMapSize r = Inr (Err (InvalidLengthPrefix NIL), advance r 1)"
    using g by (simp add: readMapSize_def bind_def ret_def isFixedMap_unat Format_defs)
  have n: "b = NIL \<Longrightarrow> isNextNil r = Inr (True, advance r 1)"
    using p d by (simp add: isNextNil_def bind_def ret_def)
  have f: "b \<noteq> NIL \<Longrightarrow> isNextNil r = Inr (False, r)"
    using p by (simp add: isNextNil_def bind_def ret_def)
  from a m n f show ?thesis by simp
qed

theorem nil_compatibility_witness:
  "readArraySize \<lparr>buffer = [0xc0], byteOffset = 0\<rparr>
     = Inr (Ok 0, \<lparr>buffer = [0xc0], byteOffset = 1\<rparr>)
   \<and> readMapSize \<lparr>buffer = [0xc0], byteOffset = 0\<rparr>
     = Inr (Err (InvalidLengthPrefix 0xc0), \<lparr>buffer = [0xc0], byteOffset = 1\<rparr>)
   \<and> isNextNil \<lparr>buffer = [0xc0], byteOffset = 0\<rparr>
     = Inr (True, \<lparr>buffer = [0xc0], byteOffset = 1\<rparr>)
   \<and> isNextNil \<lparr>buffer = [0x91, 0x01], byteOffset = 0\<rparr>
     = Inr (False, \<lparr>buffer = [0x91, 0x01], byteOffset = 0\<rparr>)"
proof -
  have h1: "at_cursor \<lparr>buffer = [0xc0], byteOffset = 0\<rparr> [0xc0]"
    by (simp add: at_cursor_def)
  have h2: "at_cursor \<lparr>buffer = [0x91, 0x01], byteOffset = 0\<rparr> [0x91]"
    by (simp add: at_cursor_def)
  show ?thesis
    using nil_compatibility [OF h1] nil_compatibility [OF h2]
    by (simp add: NIL_def advance_def)
qed

section \<open>Length prefixes\<close>

lemma unat_ucast_up:
  "LENGTH('a::len) \<le> LENGTH('b::len) \<Longrightarrow> unat (ucast (x::'a word) :: 'b word) = unat x"
proof -
  assume l: "LENGTH('a) \<le> LENGTH('b)"
  have "unat x < 2 ^ LENGTH('a)" by (rule unsigned_less)
  also have "(2::nat) ^ LENGTH('a) \<le> 2 ^ LENGTH('b)" using l by simp
  finally show ?thesis by (simp add: unsigned_ucast_eq take_bit_nat_eq_self)
qed

lemma unat_ucast_8_32: "unat (ucast (x::u8) :: u32) = unat x"
  by (rule unat_ucast_up) simp

lemma unat_ucast_16_32: "unat (ucast (x::u16) :: u32) = unat x"
  by (rule unat_ucast_up) simp

lemma unat_ucast_8_64: "unat (ucast (x::u8) :: u64) = unat x"
  by (rule unat_ucast_up) simp

lemma unat_ucast_16_64: "unat (ucast (x::u16) :: u64) = unat x"
  by (rule unat_ucast_up) simp

lemma unat_ucast_32_64: "unat (ucast (x::u32) :: u64) = unat x"
  by (rule unat_ucast_up) simp

lemma mod_shift: "c mod m = 0 \<Longrightarrow> n < m \<Longrightarrow> (c + n) mod m = (n::nat)"
  by (metis add_0 mod_add_left_eq mod_less)

lemma ucast_of_nat_up:
  "LENGTH('a::len) \<le> LENGTH('b::len) \<Longrightarrow> n < 2 ^ LENGTH('a)
    \<Longrightarrow> (ucast (word_of_nat n :: 'a word) :: 'b word) = word_of_nat n"
proof -
  assume l: "LENGTH('a) \<le> LENGTH('b)" and n: "n < 2 ^ LENGTH('a)"
  have "(2::nat) ^ LENGTH('a) \<le> 2 ^ LENGTH('b)" using l by simp
  with n have n': "n < 2 ^ LENGTH('b)" by (rule less_le_trans)
  have "unat (ucast (word_of_nat n :: 'a word) :: 'b word) = n"
    using n by (simp add: unat_ucast_up [OF l] unat_of_nat)
  moreover have "unat (word_of_nat n :: 'b word) = n"
    using n' by (simp add: unat_of_nat)
  ultimately show ?thesis by (simp add: word_eq_iff_unsigned [where ?'a = nat])
qed

lemma low_bits_disjoint:
  "n < 2 ^ k \<Longrightarrow> (push_bit k c :: u8) AND word_of_nat n = 0"
proof -
  assume "n < 2 ^ k"
  then have "n = take_bit k n" by (simp add: take_bit_nat_eq_self)
  then have "(word_of_nat n :: u8) = word_of_nat (take_bit k n)" by simp
  then show ?thesis
    by (simp only:) (rule bit_word_eqI, auto simp add: bit_simps)
qed

lemma unat_fixstr_tag: "n < 32 \<Longrightarrow> unat (FIXSTR OR word_of_nat n) = 160 + n"
proof -
  assume n: "n < 32"
  have e: "FIXSTR = push_bit 5 5" by (simp add: FIXSTR_def)
  have "FIXSTR AND word_of_nat n = 0"
    unfolding e using n by (intro low_bits_disjoint) simp
  then have "FIXSTR OR word_of_nat n = FIXSTR + word_of_nat n"
    by (simp add: disjunctive_add_eq_or)
  then show ?thesis using n by (simp add: FIXSTR_def unat_word_ariths unat_of_nat)
qed

lemma unat_fixarray_tag: "n < 16 \<Longrightarrow> unat (FIXARRAY OR word_of_nat n) = 144 + n"
proof -
  assume n: "n < 16"
  have e: "FIXARRAY = push_bit 4 9" by (simp add: FIXARRAY_def)
  have "FIXARRAY AND word_of_nat n = 0"
    unfolding e using n by (intro low_bits_disjoint) simp
  then have "FIXARRAY OR word_of_nat n = FIXARRAY + word_of_nat n"
    by (simp add: disjunctive_add_eq_or)
  then show ?thesis using n by (simp add: FIXARRAY_def unat_word_ariths unat_of_nat)
qed

lemma unat_fixmap_tag: "n < 16 \<Longrightarrow> unat (FIXMAP OR word_of_nat n) = 128 + n"
proof -
  assume n: "n < 16"
  have e: "FIXMAP = push_bit 4 8" by (simp add: FIXMAP_def)
  have "FIXMAP AND word_of_nat n = 0"
    unfolding e using n by (intro low_bits_disjoint) simp
  then have "FIXMAP OR word_of_nat n = FIXMAP + word_of_nat n"
    by (simp add: disjunctive_add_eq_or)
  then show ?thesis using n by (simp add: FIXMAP_def unat_word_ariths unat_of_nat)
qed

lemma low5_of_tag: "unat (b::u8) = c + n \<Longrightarrow> c mod 32 = 0 \<Longrightarrow> n < 32
    \<Longrightarrow> (ucast (b AND 0x1f) :: u32) = word_of_nat n"
proof -
  assume "unat b = c + n" "c mod 32 = 0" "n < 32"
  then have "unat b mod 32 = n" by (simp only: mod_shift)
  then have "unat (ucast (b AND 0x1f) :: u32) = n"
    by (simp add: unat_ucast_8_32 unat_and_1f)
  moreover have "unat (word_of_nat n :: u32) = n"
    using \<open>n < 32\<close> by (simp add: unat_of_nat)
  ultimately show ?thesis by (simp add: word_eq_iff_unsigned [where ?'a = nat])
qed

lemma low4_of_tag: "unat (b::u8) = c + n \<Longrightarrow> c mod 16 = 0 \<Longrightarrow> n < 16
    \<Longrightarrow> (ucast (b AND 0x0f) :: u32) = word_of_nat n"
proof -
  assume "unat b = c + n" "c mod 16 = 0" "n < 16"
  then have "unat b mod 16 = n" by (simp only: mod_shift)
  then have "unat (ucast (b AND 0x0f) :: u32) = n"
    by (simp add: unat_ucast_8_32 unat_and_0f)
  moreover have "unat (word_of_nat n :: u32) = n"
    using \<open>n < 16\<close> by (simp add: unat_of_nat)
  ultimately show ?thesis by (simp add: word_eq_iff_unsigned [where ?'a = nat])
qed

lemma getUint8_be:
  "at_cursor r (be_bytes 1 n @ cs) \<Longrightarrow> getUint8 r = Inr (word_of_nat n, advance r 1)"
  using getUint8_at [of r "word_of_nat n" cs] by simp

lemma getUint16_be:
  "at_cursor r (be_bytes 2 n @ cs) \<Longrightarrow> n < 2 ^ 16
    \<Longrightarrow> getUint16 r = Inr (word_of_nat n, advance r 2)"
  using getUint16_at [of r "be_bytes 2 n" cs]
  by (simp only: length_be_bytes be_nat_be_bytes) simp

lemma getUint32_be:
  "at_cursor r (be_bytes 4 n @ cs) \<Longrightarrow> n < 2 ^ 32
    \<Longrightarrow> getUint32 r = Inr (word_of_nat n, advance r 4)"
  using getUint32_at [of r "be_bytes 4 n" cs]
  by (simp only: length_be_bytes be_nat_be_bytes) simp

lemma be_bytes_1: "be_bytes 1 n = [word_of_nat n]"
  by simp

lemma be_bytes_2: "be_bytes 2 n = [word_of_nat (n div 256), word_of_nat n]"
  by (simp add: numeral_2_eq_2)

lemma be_bytes_4:
  "be_bytes 4 n = [word_of_nat (n div 256 div 256 div 256), word_of_nat (n div 256 div 256),
     word_of_nat (n div 256), word_of_nat n]"
proof -
  have "(4::nat) = Suc (Suc (Suc (Suc 0)))" by simp
  then show ?thesis by (simp only: be_bytes.simps append.simps)
qed

lemma readStringLength_header:
  assumes "n < str_limit sw" and "at_cursor r (str_header sw n @ cs)"
  shows "readStringLength r = Inr (Ok (word_of_nat n), advance r (length (str_header sw n)))"
proof (cases sw)
  case SFix
  let ?b = "FIXSTR OR word_of_nat n"
  from assms SFix have n: "n < 32" by simp
  then have u: "unat ?b = 160 + n" by (rule unat_fixstr_tag)
  from assms SFix have "getUint8 r = Inr (?b, advance r 1)"
    using getUint8_at [of r ?b cs] by simp
  moreover have "isFixedString ?b" using n by (simp add: isFixedString_unat u)
  moreover have "(ucast (?b AND 0x1f) :: u32) = word_of_nat n"
    using u n by (intro low5_of_tag [of _ 160]) simp_all
  ultimately show ?thesis
    using SFix by (simp add: readStringLength_def bind_def ret_def)
next
  case S8
  from assms S8 have a: "at_cursor r (STR8 # be_bytes 1 n @ cs)" and n: "n < 2 ^ 8"
    by simp_all
  from a have g: "getUint8 r = Inr (STR8, advance r 1)" by (rule getUint8_at)
  from a have "at_cursor (advance r 1) (be_bytes 1 n @ cs)" by (rule at_cursor_Cons)
  then have g2: "getUint8 (advance r 1) = Inr (word_of_nat n, advance (advance r 1) 1)"
    by (rule getUint8_be)
  have c: "(ucast (word_of_nat n :: u8) :: u32) = word_of_nat n"
    using n by (intro ucast_of_nat_up) simp_all
  have t: "\<not> isFixedString STR8" "\<not> isFixedArray STR8"
    by (simp_all add: isFixedString_unat isFixedArray_unat STR8_def)
  show ?thesis
    using S8
    by (simp add: readStringLength_def bind_def ret_def g g2 c t advance_advance
        length_be_bytes del: One_nat_def)
next
  case S16
  from assms S16 have a: "at_cursor r (STR16 # be_bytes 2 n @ cs)" and n: "n < 2 ^ 16"
    by simp_all
  from a have g: "getUint8 r = Inr (STR16, advance r 1)" by (rule getUint8_at)
  from a have "at_cursor (advance r 1) (be_bytes 2 n @ cs)" by (rule at_cursor_Cons)
  then have g2: "getUint16 (advance r 1) = Inr (word_of_nat n, advance (advance r 1) 2)"
    using n by (rule getUint16_be)
  have c: "(ucast (word_of_nat n :: u16) :: u32) = word_of_nat n"
    using n by (intro ucast_of_nat_up) simp_all
  have t: "\<not> isFixedString STR16" "\<not> isFixedArray STR16" "STR16 \<noteq> STR8"
    by (simp_all add: isFixedString_unat isFixedArray_unat STR16_def STR8_def)
  show ?thesis
    using S16
    by (simp add: readStringLength_def bind_def ret_def g g2 c t advance_advance
        length_be_bytes del: One_nat_def)
next
  case S32
  from assms S32 have a: "at_cursor r (STR32 # be_bytes 4 n @ cs)" and n: "n < 2 ^ 32"
    by simp_all
  from a have g: "getUint8 r = Inr (STR32, advance r 1)" by (rule getUint8_at)
  from a have "at_cursor (advance r 1) (be_bytes 4 n @ cs)" by (rule at_cursor_Cons)
  then have g2: "getUint32 (advance r 1) = Inr (word_of_nat n, advance (advance r 1) 4)"
    using n by (rule getUint32_be)
  have t: "\<not> isFixedString STR32" "\<not> isFixedArray STR32" "STR32 \<noteq> STR8" "STR32 \<noteq> STR16"
    by (simp_all add: isFixedString_unat isFixedArray_unat STR32_def STR16_def STR8_def)
  show ?thesis
    using S32
    by (simp add: readStringLength_def bind_def ret_def g g2 t advance_advance
        length_be_bytes del: One_nat_def)
qed

lemma isNextNil_other: "at_cursor r (b # cs) \<Longrightarrow> b \<noteq> NIL \<Longrightarrow> isNextNil r = Inr (False, r)"
  using peekUint8_at [of r b cs] by (simp add: isNextNil_def bind_def ret_def)

lemma isNextNil_nil: "at_cursor r (NIL # cs) \<Longrightarrow> isNextNil r = Inr (True, advance r 1)"
  using peekUint8_at [of r NIL cs] discard_1_at [of r NIL cs]
  by (simp add: isNextNil_def bind_def ret_def)

lemma readBinLength_header:
  assumes "n < bin_limit bw" and "at_cursor r (bin_header bw n @ cs)"
  shows "readBinLength r = Inr (Ok (word_of_nat n), advance r (length (bin_header bw n)))"
proof (cases bw)
  case B8
  from assms B8 have a: "at_cursor r (BIN8 # be_bytes 1 n @ cs)" and n: "n < 2 ^ 8"
    by simp_all
  from a have g: "getUint8 r = Inr (BIN8, advance r 1)" by (rule getUint8_at)
  from a have p: "isNextNil r = Inr (False, r)"
    by (rule isNextNil_other) (simp add: BIN8_def NIL_def)
  from a have "at_cursor (advance r 1) (be_bytes 1 n @ cs)" by (rule at_cursor_Cons)
  then have g2: "getUint8 (advance r 1) = Inr (word_of_nat n, advance (advance r 1) 1)"
    by (rule getUint8_be)
  have c: "(ucast (word_of_nat n :: u8) :: u32) = word_of_nat n"
    using n by (intro ucast_of_nat_up) simp_all
  have t: "\<not> isFixedArray BIN8"
    by (simp_all add: isFixedArray_unat BIN8_def)
  show ?thesis
    using B8
    by (simp add: readBinLength_def bind_def ret_def p g g2 c t advance_advance
        length_be_bytes del: One_nat_def)
next
  case B16
  from assms B16 have a: "at_cursor r (BIN16 # be_bytes 2 n @ cs)" and n: "n < 2 ^ 16"
    by simp_all
  from a have g: "getUint8 r = Inr (BIN16, advance r 1)" by (rule getUint8_at)
  from a have p: "isNextNil r = Inr (False, r)"
    by (rule isNextNil_other) (simp add: BIN16_def NIL_def)
  from a have "at_cursor (advance r 1) (be_bytes 2 n @ cs)" by (rule at_cursor_Cons)
  then have g2: "getUint16 (advance r 1) = Inr (word_of_nat n, advance (advance r 1) 2)"
    using n by (rule getUint16_be)
  have c: "(ucast (word_of_nat n :: u16) :: u32) = word_of_nat n"
    using n by (intro ucast_of_nat_up) simp_all
  have t: "\<not> isFixedArray BIN16" "BIN16 \<noteq> BIN8"
    by (simp_all add: isFixedArray_unat BIN16_def BIN8_def)
  show ?thesis
    using B16
    by (simp add: readBinLength_def bind_def ret_def p g g2 c t advance_advance
        length_be_bytes del: One_nat_def)
next
  case B32
  from assms B32 have a: "at_cursor r (BIN32 # be_bytes 4 n @ cs)" and n: "n < 2 ^ 32"
    by simp_all
  from a have g: "getUint8 r = Inr (BIN32, advance r 1)" by (rule getUint8_at)
  from a have p: "isNextNil r = Inr (False, r)"
    by (rule isNextNil_other) (simp add: BIN32_def NIL_def)
  from a have "at_cursor (advance r 1) (be_bytes 4 n @ cs)" by (rule at_cursor_Cons)
  then have g2: "getUint32 (advance r 1) = Inr (word_of_nat n, advance (advance r 1) 4)"
    using n by (rule getUint32_be)
  have t: "\<not> isFixedArray BIN32" "BIN32 \<noteq> BIN8" "BIN32 \<noteq> BIN16"
    by (simp_all add: isFixedArray_unat BIN32_def BIN16_def BIN8_def)
  show ?thesis
    using B32
    by (simp add: readBinLength_def bind_def ret_def p g g2 t advance_advance
        length_be_bytes del: One_nat_def)
qed

section \<open>The fixarray pattern as a length\<close>

text \<open>
  C7. When the next byte has the fixarray bit pattern, \<open>readStringLength\<close> and
  \<open>readBinLength\<close> both succeed, return the low four bits of that byte and leave the cursor
  one byte further. They also resolve their own forms: \<open>readStringLength\<close> the headers
  fixstr, str8, str16 and str32, \<open>readBinLength\<close> the headers bin8, bin16 and bin32, each to
  the length the header carries; and \<open>readBinLength\<close> resolves the nil tag to the length 0.
\<close>

theorem fixarray_pattern_as_length:
  "(at_cursor r [b] \<and> isFixedArray b \<longrightarrow>
        readStringLength r = Inr (Ok (ucast (b AND 0x0f)), advance r 1)
      \<and> readBinLength r = Inr (Ok (ucast (b AND 0x0f)), advance r 1)
      \<and> unat (ucast (b AND 0x0f) :: u32) = unat b mod 16)
   \<and> (n < str_limit sw \<and> at_cursor r (str_header sw n) \<longrightarrow>
        readStringLength r = Inr (Ok (word_of_nat n), advance r (length (str_header sw n))))
   \<and> (n < bin_limit bw \<and> at_cursor r (bin_header bw n) \<longrightarrow>
        readBinLength r = Inr (Ok (word_of_nat n), advance r (length (bin_header bw n))))
   \<and> (at_cursor r [NIL] \<longrightarrow> readBinLength r = Inr (Ok 0, advance r 1))"
proof -
  have p1: "readStringLength r = Inr (Ok (ucast (b AND 0x0f)), advance r 1)
      \<and> readBinLength r = Inr (Ok (ucast (b AND 0x0f)), advance r 1)
      \<and> unat (ucast (b AND 0x0f) :: u32) = unat b mod 16"
    if a: "at_cursor r [b]" and f: "isFixedArray b"
  proof -
    from a have g: "getUint8 r = Inr (b, advance r 1)" by (rule getUint8_at)
    from f have s: "\<not> isFixedString b" by (simp add: isFixedString_unat isFixedArray_unat)
    from f have "b \<noteq> NIL" by (auto simp add: isFixedArray_unat NIL_def)
    with a have p: "isNextNil r = Inr (False, r)" by (rule isNextNil_other)
    have "readStringLength r = Inr (Ok (ucast (b AND 0x0f)), advance r 1)"
      by (simp add: readStringLength_def bind_def ret_def g s f
          FOUR_LEAST_SIG_BITS_IN_BYTE_def)
    moreover have "readBinLength r = Inr (Ok (ucast (b AND 0x0f)), advance r 1)"
      by (simp add: readBinLength_def bind_def ret_def g p f
          FOUR_LEAST_SIG_BITS_IN_BYTE_def)
    moreover have "unat (ucast (b AND 0x0f) :: u32) = unat b mod 16"
      by (simp add: unat_ucast_8_32 unat_and_0f)
    ultimately show ?thesis by simp
  qed
  have p2: "readStringLength r
      = Inr (Ok (word_of_nat n), advance r (length (str_header sw n)))"
    if "n < str_limit sw" and "at_cursor r (str_header sw n)"
    using that readStringLength_header [of n sw r "[]"] by simp
  have p3: "readBinLength r
      = Inr (Ok (word_of_nat n), advance r (length (bin_header bw n)))"
    if "n < bin_limit bw" and "at_cursor r (bin_header bw n)"
    using that readBinLength_header [of n bw r "[]"] by simp
  have p4: "readBinLength r = Inr (Ok 0, advance r 1)" if "at_cursor r [NIL]"
    using isNextNil_nil [OF that] by (simp add: readBinLength_def bind_def ret_def)
  from p1 p2 p3 p4 show ?thesis by blast
qed

theorem fixarray_pattern_as_length_witness:
  "readStringLength \<lparr>buffer = [0x93], byteOffset = 0\<rparr>
     = Inr (Ok 3, \<lparr>buffer = [0x93], byteOffset = 1\<rparr>)
   \<and> readBinLength \<lparr>buffer = [0x93], byteOffset = 0\<rparr>
     = Inr (Ok 3, \<lparr>buffer = [0x93], byteOffset = 1\<rparr>)
   \<and> readStringLength \<lparr>buffer = [0xda, 0x01, 0x02], byteOffset = 0\<rparr>
     = Inr (Ok 258, \<lparr>buffer = [0xda, 0x01, 0x02], byteOffset = 3\<rparr>)
   \<and> readBinLength \<lparr>buffer = [0xc4, 0x07], byteOffset = 0\<rparr>
     = Inr (Ok 7, \<lparr>buffer = [0xc4, 0x07], byteOffset = 2\<rparr>)
   \<and> readBinLength \<lparr>buffer = [0xc0], byteOffset = 0\<rparr>
     = Inr (Ok 0, \<lparr>buffer = [0xc0], byteOffset = 1\<rparr>)"
proof -
  have h1: "at_cursor \<lparr>buffer = [0x93], byteOffset = 0\<rparr> [0x93] \<and> isFixedArray 0x93"
    by (simp add: at_cursor_def isFixedArray_def FIXARRAY_def)
  have h2: "258 < str_limit S16
      \<and> at_cursor \<lparr>buffer = [0xda, 0x01, 0x02], byteOffset = 0\<rparr> (str_header S16 258)"
    by (simp add: at_cursor_def STR16_def be_bytes_2)
  have h3: "7 < bin_limit B8
      \<and> at_cursor \<lparr>buffer = [0xc4, 0x07], byteOffset = 0\<rparr> (bin_header B8 7)"
    by (simp add: at_cursor_def BIN8_def)
  have h4: "at_cursor \<lparr>buffer = [0xc0], byteOffset = 0\<rparr> [NIL]"
    by (simp add: at_cursor_def NIL_def)
  show ?thesis
    using h1 h2 h3 h4
      fixarray_pattern_as_length
        [where r = "\<lparr>buffer = [0x93], byteOffset = 0\<rparr>" and b = "0x93"]
      fixarray_pattern_as_length
        [where r = "\<lparr>buffer = [0xda, 0x01, 0x02], byteOffset = 0\<rparr>" and n = 258
          and sw = S16]
      fixarray_pattern_as_length
        [where r = "\<lparr>buffer = [0xc4, 0x07], byteOffset = 0\<rparr>" and n = 7 and bw = B8]
      fixarray_pattern_as_length [where r = "\<lparr>buffer = [0xc0], byteOffset = 0\<rparr>"]
    by (simp add: advance_def be_bytes_2)
qed

section \<open>Rejected tags\<close>

lemma getUint8_eq:
  "getUint8 r =
     (if 0 \<le> byteOffset r \<and> 1 \<le> remaining r
      then Inr (word_of_nat (be_nat (take 1 (drop (nat (byteOffset r)) (buffer r)))),
                advance r 1)
      else Inl RangeError)"
  by (simp add: getUint8_def getBytes_def bind_def ret_def advance_def)

lemma getUint8_adv: "getUint8 r = Inr (b, r') \<Longrightarrow> r' = advance r 1"
  by (simp add: getUint8_eq split: if_splits)

lemma peekUint8_same: "peekUint8 r = Inr (b, r') \<Longrightarrow> r' = r"
  by (auto simp add: peekUint8_def split: if_splits)

lemma isNextNil_eq:
  "isNextNil r =
     (if 0 \<le> byteOffset r \<and> 1 \<le> remaining r
      then (if buffer r ! nat (byteOffset r) = NIL then Inr (True, advance r 1)
            else Inr (False, r))
      else Inl RangeError)"
  by (simp add: isNextNil_def peekUint8_def discard_def bind_def ret_def advance_def)

lemma readBool_reject:
  "readBool r = Inr (Err e, r') \<Longrightarrow> kind_of e = BadTag \<or> kind_of e = InvalidLength
    \<Longrightarrow> r' = advance r 1"
  by (auto simp add: readBool_def bind_def ret_def getUint8_eq simp del: One_nat_def
      split: sum.splits if_splits)

lemma readInt64_reject:
  "readInt64 r = Inr (Err e, r') \<Longrightarrow> kind_of e = BadTag \<or> kind_of e = InvalidLength
    \<Longrightarrow> r' = advance r 1"
  by (auto simp add: readInt64_def bind_def ret_def getUint8_eq simp del: One_nat_def
      split: sum.splits if_splits)

lemma readUInt64_reject:
  "readUInt64 r = Inr (Err e, r') \<Longrightarrow> kind_of e = BadTag \<or> kind_of e = InvalidLength
    \<Longrightarrow> r' = advance r 1"
  by (auto simp add: readUInt64_def bind_def ret_def getUint8_eq simp del: One_nat_def
      split: sum.splits if_splits)

lemma readInt8_reject:
  "readInt8 r = Inr (Err e, r') \<Longrightarrow> kind_of e = BadTag \<or> kind_of e = InvalidLength
    \<Longrightarrow> r' = advance r 1"
  by (auto simp add: readInt8_def bind_def ret_def simp del: One_nat_def
      split: sum.splits if_splits Result.splits dest: readInt64_reject)

lemma readInt16_reject:
  "readInt16 r = Inr (Err e, r') \<Longrightarrow> kind_of e = BadTag \<or> kind_of e = InvalidLength
    \<Longrightarrow> r' = advance r 1"
  by (auto simp add: readInt16_def bind_def ret_def simp del: One_nat_def
      split: sum.splits if_splits Result.splits dest: readInt64_reject)

lemma readInt32_reject:
  "readInt32 r = Inr (Err e, r') \<Longrightarrow> kind_of e = BadTag \<or> kind_of e = InvalidLength
    \<Longrightarrow> r' = advance r 1"
  by (auto simp add: readInt32_def bind_def ret_def simp del: One_nat_def
      split: sum.splits if_splits Result.splits dest: readInt64_reject)

lemma readUInt8_reject:
  "readUInt8 r = Inr (Err e, r') \<Longrightarrow> kind_of e = BadTag \<or> kind_of e = InvalidLength
    \<Longrightarrow> r' = advance r 1"
  by (auto simp add: readUInt8_def bind_def ret_def simp del: One_nat_def
      split: sum.splits if_splits Result.splits dest: readUInt64_reject)

lemma readUInt16_reject:
  "readUInt16 r = Inr (Err e, r') \<Longrightarrow> kind_of e = BadTag \<or> kind_of e = InvalidLength
    \<Longrightarrow> r' = advance r 1"
  by (auto simp add: readUInt16_def bind_def ret_def simp del: One_nat_def
      split: sum.splits if_splits Result.splits dest: readUInt64_reject)

lemma readUInt32_reject:
  "readUInt32 r = Inr (Err e, r') \<Longrightarrow> kind_of e = BadTag \<or> kind_of e = InvalidLength
    \<Longrightarrow> r' = advance r 1"
  by (auto simp add: readUInt32_def bind_def ret_def simp del: One_nat_def
      split: sum.splits if_splits Result.splits dest: readUInt64_reject)

lemma readFloat32_reject:
  "readFloat32 narrow r = Inr (Err e, r')
    \<Longrightarrow> kind_of e = BadTag \<or> kind_of e = InvalidLength \<Longrightarrow> r' = advance r 1"
  by (auto simp add: readFloat32_def bind_def ret_def getUint8_eq simp del: One_nat_def
      split: sum.splits if_splits option.splits)

lemma readFloat64_reject:
  "readFloat64 widen r = Inr (Err e, r')
    \<Longrightarrow> kind_of e = BadTag \<or> kind_of e = InvalidLength \<Longrightarrow> r' = advance r 1"
  by (auto simp add: readFloat64_def bind_def ret_def getUint8_eq simp del: One_nat_def
      split: sum.splits if_splits)

lemma readStringLength_reject:
  "readStringLength r = Inr (Err e, r') \<Longrightarrow> kind_of e = BadTag \<or> kind_of e = InvalidLength
    \<Longrightarrow> r' = advance r 1"
  by (auto simp add: readStringLength_def bind_def ret_def getUint8_eq simp del: One_nat_def
      split: sum.splits if_splits)

lemma readString_reject:
  "readString utf8 r = Inr (Err e, r') \<Longrightarrow> kind_of e = BadTag \<or> kind_of e = InvalidLength
    \<Longrightarrow> r' = advance r 1"
  by (auto simp add: readString_def bind_def ret_def simp del: One_nat_def
      split: sum.splits if_splits Result.splits dest: readStringLength_reject)

lemma readBinLength_reject:
  "readBinLength r = Inr (Err e, r') \<Longrightarrow> kind_of e = BadTag \<or> kind_of e = InvalidLength
    \<Longrightarrow> r' = advance r 1"
  by (auto simp add: readBinLength_def bind_def ret_def getUint8_eq isNextNil_eq
      simp del: One_nat_def split: sum.splits if_splits)

lemma readByteArray_reject:
  "readByteArray r = Inr (Err e, r') \<Longrightarrow> kind_of e = BadTag \<or> kind_of e = InvalidLength
    \<Longrightarrow> r' = advance r 1"
  by (auto simp add: readByteArray_def bind_def ret_def simp del: One_nat_def
      split: sum.splits if_splits Result.splits dest: readBinLength_reject)

lemma readArraySize_reject:
  "readArraySize r = Inr (Err e, r') \<Longrightarrow> kind_of e = BadTag \<or> kind_of e = InvalidLength
    \<Longrightarrow> r' = advance r 1"
  by (auto simp add: readArraySize_def bind_def ret_def getUint8_eq simp del: One_nat_def
      split: sum.splits if_splits)

lemma readMapSize_reject:
  "readMapSize r = Inr (Err e, r') \<Longrightarrow> kind_of e = BadTag \<or> kind_of e = InvalidLength
    \<Longrightarrow> r' = advance r 1"
  by (auto simp add: readMapSize_def bind_def ret_def getUint8_eq simp del: One_nat_def
      split: sum.splits if_splits)

section \<open>Integers on the wire\<close>

lemma shifted_mod:
  fixes x h :: int
  assumes "0 \<le> x" and "x < 2 * h"
  shows "(x + h) mod (2 * h) - h = (if x < h then x else x - 2 * h)"
proof (cases "x < h")
  case True
  with assms have "(x + h) mod (2 * h) = x + h" by (intro mod_pos_pos_trivial) simp_all
  with True show ?thesis by simp
next
  case False
  with assms have "(x + h - 2 * h) mod (2 * h) = x + h - 2 * h"
    by (intro mod_pos_pos_trivial) simp_all
  moreover have "(x + h - 2 * h) mod (2 * h) = (x + h) mod (2 * h)"
    using mod_diff_right_eq [of "x + h" "2 * h" "2 * h"] by simp
  ultimately show ?thesis using False by simp
qed

lemma sint_of_nat_twos:
  "n < 2 ^ LENGTH('a) \<Longrightarrow> sint (word_of_nat n :: 'a::len word) = twos LENGTH('a) n"
proof -
  assume n: "n < 2 ^ LENGTH('a)"
  let ?h = "(2::int) ^ (LENGTH('a) - 1)"
  have p: "(2::int) ^ LENGTH('a) = 2 * ?h"
    using power_Suc [of "2::int" "LENGTH('a) - 1"] by simp
  have "int n < int (2 ^ LENGTH('a))" using n by (simp only: of_nat_less_iff)
  then have "int n < 2 ^ LENGTH('a)" by simp
  then have n': "int n < 2 * ?h" by (simp only: p)
  have "sint (word_of_nat n :: 'a word) = (int n + ?h) mod 2 ^ LENGTH('a) - ?h"
    by (simp add: signed_of_nat signed_take_bit_eq_take_bit_shift take_bit_eq_mod)
  also have "\<dots> = (int n + ?h) mod (2 * ?h) - ?h" by (simp only: p)
  also have "\<dots> = (if int n < ?h then int n else int n - 2 * ?h)"
    using n' by (intro shifted_mod) simp_all
  also have "\<dots> = twos LENGTH('a) n"
    by (simp only: twos_def p [symmetric]) (simp add: of_nat_less_numeral_power_cancel_iff)
  finally show ?thesis .
qed

lemma scast_of_nat_twos:
  "n < 2 ^ LENGTH('a) \<Longrightarrow>
     (scast (word_of_nat n :: 'a::len word) :: 'b::len word) = word_of_int (twos LENGTH('a) n)"
  by (simp add: scast_eq sint_of_nat_twos)

lemma sint_word_of_int_u64:
  "- (2 ^ 63) \<le> n \<Longrightarrow> n < 2 ^ 63 \<Longrightarrow> sint (word_of_int n :: u64) = n"
  by (simp add: signed_of_int signed_take_bit_int_eq_self)

lemma uint_word_of_int_u64:
  "0 \<le> n \<Longrightarrow> n < 2 ^ 64 \<Longrightarrow> uint (word_of_int n :: u64) = n"
  by (simp add: uint_word_of_int_eq take_bit_int_eq_self)

lemma twos_8: "n < 2 ^ 8 \<Longrightarrow> - 128 \<le> twos 8 n \<and> twos 8 n < 128"
  by (simp add: twos_def)

lemma twos_16: "n < 2 ^ 16 \<Longrightarrow> - 32768 \<le> twos 16 n \<and> twos 16 n < 32768"
  by (simp add: twos_def)

lemma twos_32: "n < 2 ^ 32 \<Longrightarrow> - 2147483648 \<le> twos 32 n \<and> twos 32 n < 2147483648"
  by (simp add: twos_def)

lemma twos_64: "n < 2 ^ 64 \<Longrightarrow> - (2 ^ 63) \<le> twos 64 n \<and> twos 64 n < 2 ^ 63"
  by (simp add: twos_def)

lemma advance_eq_iff: "(advance r m = advance r n) = (m = n)"
proof
  assume "advance r m = advance r n"
  then have "byteOffset (advance r m) = byteOffset (advance r n)" by simp
  then show "m = n" by (simp add: advance_def)
qed simp

lemma payload8:
  "at_cursor r (t # bs @ cs) \<Longrightarrow> length bs = 1
    \<Longrightarrow> getUint8 (advance r (Suc 0)) = Inr (word_of_nat (be_nat bs), advance r 2)"
proof -
  assume a: "at_cursor r (t # bs @ cs)" and l: "length bs = 1"
  from l obtain b where b: "bs = [b]" by (cases bs) simp_all
  from a have "at_cursor (advance r 1) (bs @ cs)" by (rule at_cursor_Cons)
  then have "getUint8 (advance r 1) = Inr (b, advance (advance r 1) 1)"
    unfolding b using getUint8_at [of "advance r 1" b cs] by simp
  then show ?thesis by (simp add: b be_nat_single advance_advance advance_eq_iff)
qed

lemma payload16:
  "at_cursor r (t # bs @ cs) \<Longrightarrow> length bs = 2
    \<Longrightarrow> getUint16 (advance r (Suc 0)) = Inr (word_of_nat (be_nat bs), advance r 3)"
proof -
  assume a: "at_cursor r (t # bs @ cs)" and l: "length bs = 2"
  from a have "at_cursor (advance r 1) (bs @ cs)" by (rule at_cursor_Cons)
  then have "getUint16 (advance r 1) = Inr (word_of_nat (be_nat bs), advance (advance r 1) 2)"
    using l by (rule getUint16_at)
  then show ?thesis by (simp add: advance_advance advance_eq_iff)
qed

lemma payload32:
  "at_cursor r (t # bs @ cs) \<Longrightarrow> length bs = 4
    \<Longrightarrow> getUint32 (advance r (Suc 0)) = Inr (word_of_nat (be_nat bs), advance r 5)"
proof -
  assume a: "at_cursor r (t # bs @ cs)" and l: "length bs = 4"
  from a have "at_cursor (advance r 1) (bs @ cs)" by (rule at_cursor_Cons)
  then have "getUint32 (advance r 1) = Inr (word_of_nat (be_nat bs), advance (advance r 1) 4)"
    using l by (rule getUint32_at)
  then show ?thesis by (simp add: advance_advance advance_eq_iff)
qed

lemma payload64:
  "at_cursor r (t # bs @ cs) \<Longrightarrow> length bs = 8
    \<Longrightarrow> getUint64 (advance r (Suc 0)) = Inr (word_of_nat (be_nat bs), advance r 9)"
proof -
  assume a: "at_cursor r (t # bs @ cs)" and l: "length bs = 8"
  from a have "at_cursor (advance r 1) (bs @ cs)" by (rule at_cursor_Cons)
  then have "getUint64 (advance r 1) = Inr (word_of_nat (be_nat bs), advance (advance r 1) 8)"
    using l by (rule getUint64_at)
  then show ?thesis by (simp add: advance_advance advance_eq_iff)
qed

lemma be_nat_bound:
  "length bs = k \<Longrightarrow> be_nat bs < 256 ^ k"
  using be_nat_less [of bs] by simp

lemma ucast_u8_int: "(ucast (x::u8) :: u64) = word_of_int (uint x)"
  by (rule ucast_eq)

lemma sint_negfix: "0xe0 \<le> (x::u8) \<Longrightarrow> sint x = uint x - 256"
proof -
  assume "0xe0 \<le> x"
  then have g: "224 \<le> unat x" by (simp add: word_le_nat_alt)
  have t: "sint x = twos 8 (unat x)"
    using unat_u8_less [of x] sint_of_nat_twos [where ?'a = 8, of "unat x"] by simp
  have "\<not> unat x < 2 ^ (8 - 1)" using g by simp
  then have "twos 8 (unat x) = int (unat x) - 2 ^ 8" by (simp only: twos_def if_False)
  also have "\<dots> = uint x - 256" by simp
  finally show ?thesis using t by simp
qed

lemma readInt64_fixint:
  "at_cursor r (x # cs) \<Longrightarrow> x \<le> 0x7f
    \<Longrightarrow> readInt64 r = Inr (Ok (word_of_int (uint x)), advance r 1)"
proof -
  assume a: "at_cursor r (x # cs)" and x: "x \<le> 0x7f"
  from a have g: "getUint8 r = Inr (x, advance r 1)" by (rule getUint8_at)
  from x have "isFixedInt x" by (simp add: isFixedInt_unat word_le_nat_alt)
  then show ?thesis by (simp add: readInt64_def bind_def ret_def g)
qed

lemma readInt64_negfixint:
  "at_cursor r (x # cs) \<Longrightarrow> 0xe0 \<le> x
    \<Longrightarrow> readInt64 r = Inr (Ok (word_of_int (uint x - 256)), advance r 1)"
proof -
  assume a: "at_cursor r (x # cs)" and x: "0xe0 \<le> x"
  from a have g: "getUint8 r = Inr (x, advance r 1)" by (rule getUint8_at)
  from x have "isNegativeFixedInt x" "\<not> isFixedInt x"
    by (simp_all add: isNegativeFixedInt_unat isFixedInt_unat word_le_nat_alt)
  moreover have "(word_of_int (uint x - 256) :: u64) = word_of_int (sint x)"
    by (simp only: sint_negfix [OF x])
  then have "(scast x :: u64) = word_of_int (uint x - 256)"
    by (simp only: scast_eq)
  ultimately show ?thesis by (simp add: readInt64_def bind_def ret_def g del: of_int_diff)
qed

lemmas tag_tests = isFixedInt_unat isNegativeFixedInt_unat isFixedString_unat
  isFixedArray_unat isFixedMap_unat Format_defs

lemma readInt64_MNum:
  assumes a: "at_cursor r (num_tag k # bs @ cs)" and l: "length bs = num_width k"
    and n: "int_of_msg (MNum k bs) = Some n"
  shows "readInt64 r
      = Inr (if n \<le> 2 ^ 63 - 1 then Ok (word_of_int n) else Err (IntegerOverflowI64 n),
             advance r (1 + num_width k))
    \<and> - (2 ^ 63) \<le> n \<and> n < 2 ^ 64 \<and> (2 ^ 63 - 1 < n \<longrightarrow> k = KUInt64)"
proof -
  from a have g: "getUint8 r = Inr (num_tag k, advance r 1)" by (rule getUint8_at)
  let ?m = "be_nat bs"
  show ?thesis
  proof (cases k)
    case KFloat32
    with n show ?thesis by simp
  next
    case KFloat64
    with n show ?thesis by simp
  next
    case KUInt8
    with l have m: "?m < 2 ^ 8" using be_nat_bound [of bs 1] by simp
    from a l KUInt8 have p: "getUint8 (advance r (Suc 0)) = Inr (word_of_nat ?m, advance r 2)"
      by (intro payload8) simp_all
    have c: "(ucast (word_of_nat ?m :: u8) :: u64) = word_of_int (int ?m)"
      using m by (simp add: ucast_of_nat_up)
    from n KUInt8 have v: "n = int ?m" by simp
    have "readInt64 r = Inr (Ok (word_of_int n), advance r 2)"
      using KUInt8 by (simp add: readInt64_def bind_def ret_def g p c v tag_tests)
    then show ?thesis using m v KUInt8 by (simp add: advance_eq_iff)
  next
    case KUInt16
    with l have m: "?m < 2 ^ 16" using be_nat_bound [of bs 2] by simp
    from a l KUInt16 have p: "getUint16 (advance r (Suc 0)) = Inr (word_of_nat ?m, advance r 3)"
      by (intro payload16) simp_all
    have c: "(ucast (word_of_nat ?m :: u16) :: u64) = word_of_int (int ?m)"
      using m by (simp add: ucast_of_nat_up)
    from n KUInt16 have v: "n = int ?m" by simp
    have "readInt64 r = Inr (Ok (word_of_int n), advance r 3)"
      using KUInt16 by (simp add: readInt64_def bind_def ret_def g p c v tag_tests)
    then show ?thesis using m v KUInt16 by (simp add: advance_eq_iff)
  next
    case KUInt32
    with l have m: "?m < 2 ^ 32" using be_nat_bound [of bs 4] by simp
    from a l KUInt32 have p: "getUint32 (advance r (Suc 0)) = Inr (word_of_nat ?m, advance r 5)"
      by (intro payload32) simp_all
    have c: "(ucast (word_of_nat ?m :: u32) :: u64) = word_of_int (int ?m)"
      using m by (simp add: ucast_of_nat_up)
    from n KUInt32 have v: "n = int ?m" by simp
    have "readInt64 r = Inr (Ok (word_of_int n), advance r 5)"
      using KUInt32 by (simp add: readInt64_def bind_def ret_def g p c v tag_tests)
    then show ?thesis using m v KUInt32 by (simp add: advance_eq_iff)
  next
    case KUInt64
    with l have m: "?m < 2 ^ 64" using be_nat_bound [of bs 8] by simp
    from a l KUInt64 have p: "getUint64 (advance r (Suc 0)) = Inr (word_of_nat ?m, advance r 9)"
      by (intro payload64) simp_all
    from n KUInt64 have v: "n = int ?m" by simp
    have u: "unat (word_of_nat ?m :: u64) = ?m" using m by (simp add: unat_of_nat)
    have le: "((word_of_nat ?m :: u64) \<le> 0x7fffffffffffffff) = (n \<le> 2 ^ 63 - 1)"
      by (simp add: word_le_nat_alt u v)
    have ui: "uint (word_of_nat ?m :: u64) = n" by (simp add: uint_nat u v)
    have "readInt64 r
        = Inr (if n \<le> 2 ^ 63 - 1 then Ok (word_of_int n) else Err (IntegerOverflowI64 n),
               advance r 9)"
      using KUInt64 by (simp add: readInt64_def bind_def ret_def g p le ui tag_tests) (simp add: v)
    then show ?thesis using m v KUInt64 by (simp add: advance_eq_iff)
  next
    case KInt8
    with l have m: "?m < 2 ^ 8" using be_nat_bound [of bs 1] by simp
    from a l KInt8 have p: "getUint8 (advance r (Suc 0)) = Inr (word_of_nat ?m, advance r 2)"
      by (intro payload8) simp_all
    from n KInt8 have v: "n = twos 8 ?m" by simp
    have c: "(scast (word_of_nat ?m :: u8) :: u64) = word_of_int n"
      using m by (simp add: scast_of_nat_twos v)
    have "readInt64 r = Inr (Ok (word_of_int n), advance r 2)"
      using KInt8 by (simp add: readInt64_def getInt8_def bind_def ret_def g p c tag_tests)
    then show ?thesis using twos_8 [OF m] v KInt8 by (simp add: advance_eq_iff)
  next
    case KInt16
    with l have m: "?m < 2 ^ 16" using be_nat_bound [of bs 2] by simp
    from a l KInt16 have p: "getUint16 (advance r (Suc 0)) = Inr (word_of_nat ?m, advance r 3)"
      by (intro payload16) simp_all
    from n KInt16 have v: "n = twos 16 ?m" by simp
    have c: "(scast (word_of_nat ?m :: u16) :: u64) = word_of_int n"
      using m by (simp add: scast_of_nat_twos v)
    have "readInt64 r = Inr (Ok (word_of_int n), advance r 3)"
      using KInt16 by (simp add: readInt64_def getInt16_def bind_def ret_def g p c tag_tests)
    then show ?thesis using twos_16 [OF m] v KInt16 by (simp add: advance_eq_iff)
  next
    case KInt32
    with l have m: "?m < 2 ^ 32" using be_nat_bound [of bs 4] by simp
    from a l KInt32 have p: "getUint32 (advance r (Suc 0)) = Inr (word_of_nat ?m, advance r 5)"
      by (intro payload32) simp_all
    from n KInt32 have v: "n = twos 32 ?m" by simp
    have c: "(scast (word_of_nat ?m :: u32) :: u64) = word_of_int n"
      using m by (simp add: scast_of_nat_twos v)
    have "readInt64 r = Inr (Ok (word_of_int n), advance r 5)"
      using KInt32 by (simp add: readInt64_def getInt32_def bind_def ret_def g p c tag_tests)
    then show ?thesis using twos_32 [OF m] v KInt32 by (simp add: advance_eq_iff)
  next
    case KInt64
    with l have m: "?m < 2 ^ 64" using be_nat_bound [of bs 8] by simp
    from a l KInt64 have p: "getUint64 (advance r (Suc 0)) = Inr (word_of_nat ?m, advance r 9)"
      by (intro payload64) simp_all
    from n KInt64 have v: "n = twos 64 ?m" by simp
    have "sint (word_of_nat ?m :: u64) = n"
      using m sint_of_nat_twos [where ?'a = 64, of ?m] by (simp add: v)
    then have "(word_of_int n :: u64) = word_of_int (sint (word_of_nat ?m :: u64))"
      by (simp only:)
    then have c: "(word_of_nat ?m :: u64) = word_of_int n" by simp
    have "readInt64 r = Inr (Ok (word_of_int n), advance r 9)"
      using KInt64 by (simp add: readInt64_def getInt64_def bind_def ret_def g p c tag_tests)
    then show ?thesis using twos_64 [OF m] v KInt64 by (simp add: advance_eq_iff)
  qed
qed

lemma readInt64_other:
  assumes a: "at_cursor r (t # cs)" and t: "\<not> int_tag t"
  shows "readInt64 r = Inr (Err (BadPrefixForInt t), advance r 1)"
proof -
  from a have g: "getUint8 r = Inr (t, advance r 1)" by (rule getUint8_at)
  from t have u: "128 \<le> unat t" "unat t < 224" "unat t < 204 \<or> 211 < unat t"
    by (auto simp add: int_tag_def word_le_nat_alt)
  then have f: "\<not> isFixedInt t" "\<not> isNegativeFixedInt t"
    by (simp_all add: isFixedInt_unat isNegativeFixedInt_unat)
  from u have ne: "t \<noteq> INT8" "t \<noteq> INT16" "t \<noteq> INT32" "t \<noteq> INT64"
    "t \<noteq> UINT8" "t \<noteq> UINT16" "t \<noteq> UINT32" "t \<noteq> UINT64"
    by (auto simp add: Format_defs)
  show ?thesis by (simp add: readInt64_def bind_def ret_def g f ne)
qed

lemma int_form_tag:
  "well_formed v \<Longrightarrow> int_of_msg v = Some n \<Longrightarrow> int_tag (hd (encode v))"
proof (cases v)
  case (MNum k bs)
  assume "int_of_msg v = Some n"
  with MNum show ?thesis by (cases k) (simp_all add: int_tag_def Format_defs)
qed (simp_all add: int_tag_def)

section \<open>The canonical signed reader\<close>

text \<open>
  C2. On a well-formed value of an integer form (fixint, negative fixint, uint8 to uint64,
  int8 to int64) that encodes the integer \<open>n\<close>, \<open>readInt64\<close> consumes the value and returns
  the \<open>i64\<close> whose signed reading is \<open>n\<close>, unless \<open>n\<close> exceeds the signed 64-bit maximum,
  which only a uint64 form can do and which gives the integer-overflow error. The tags of
  these forms are the integer tags, and on any other tag \<open>readInt64\<close> returns the bad-tag
  error.
\<close>

theorem readInt64_decodes_integers:
  "(well_formed v \<and> int_of_msg v = Some n \<and> at_cursor r (encode v) \<longrightarrow>
        int_tag (hd (encode v))
      \<and> readInt64 r
          = Inr (if n \<le> 2 ^ 63 - 1 then Ok (word_of_int n) else Err (IntegerOverflowI64 n),
                 advance r (length (encode v)))
      \<and> (n \<le> 2 ^ 63 - 1 \<longrightarrow> sint (word_of_int n :: u64) = n)
      \<and> (2 ^ 63 - 1 < n \<longrightarrow> (\<exists>bs. v = MNum KUInt64 bs)))
   \<and> (\<not> int_tag t \<and> at_cursor r [t] \<longrightarrow>
        readInt64 r = Inr (Err (BadPrefixForInt t), advance r 1))
   \<and> kind_of (IntegerOverflowI64 n) = IntegerOverflow
   \<and> kind_of (BadPrefixForInt t) = BadTag"
proof -
  have p1: "int_tag (hd (encode v))
      \<and> readInt64 r
          = Inr (if n \<le> 2 ^ 63 - 1 then Ok (word_of_int n) else Err (IntegerOverflowI64 n),
                 advance r (length (encode v)))
      \<and> (n \<le> 2 ^ 63 - 1 \<longrightarrow> sint (word_of_int n :: u64) = n)
      \<and> (2 ^ 63 - 1 < n \<longrightarrow> (\<exists>bs. v = MNum KUInt64 bs))"
    if w: "well_formed v" and n: "int_of_msg v = Some n" and a: "at_cursor r (encode v)"
  proof -
    have tag: "int_tag (hd (encode v))" using w n by (rule int_form_tag)
    have main: "readInt64 r
          = Inr (if n \<le> 2 ^ 63 - 1 then Ok (word_of_int n) else Err (IntegerOverflowI64 n),
                 advance r (length (encode v)))
        \<and> - (2 ^ 63) \<le> n \<and> (2 ^ 63 - 1 < n \<longrightarrow> (\<exists>bs. v = MNum KUInt64 bs))"
    proof (cases v)
      case (MPosFixInt x)
      with w a have "readInt64 r = Inr (Ok (word_of_int (uint x)), advance r 1)"
        by (intro readInt64_fixint [where cs = "[]"]) simp_all
      moreover have "uint x < 2 ^ 8" using uint_bounded [of x] by simp
      moreover have "- (2 ^ 63) \<le> uint x"
        by (rule order_trans [of _ 0]) simp_all
      moreover from n MPosFixInt have "n = uint x" by simp
      ultimately show ?thesis using MPosFixInt by simp
    next
      case (MNegFixInt x)
      with w a have "readInt64 r = Inr (Ok (word_of_int (uint x - 256)), advance r 1)"
        by (intro readInt64_negfixint [where cs = "[]"]) simp_all
      moreover have "uint x < 2 ^ 8" using uint_bounded [of x] by simp
      moreover have "- (2 ^ 63) \<le> uint x - 256"
        using uint_ge_0 [of x] by simp
      moreover from n MNegFixInt have "n = uint x - 256" by simp
      ultimately show ?thesis using MNegFixInt by simp
    next
      case (MNum k bs)
      with w a n have "readInt64 r
          = Inr (if n \<le> 2 ^ 63 - 1 then Ok (word_of_int n) else Err (IntegerOverflowI64 n),
                 advance r (1 + num_width k))
        \<and> - (2 ^ 63) \<le> n \<and> n < 2 ^ 64 \<and> (2 ^ 63 - 1 < n \<longrightarrow> k = KUInt64)"
        by (intro readInt64_MNum [where cs = "[]"]) simp_all
      then show ?thesis using MNum w by simp
    qed (use n in simp_all)
    then have "n \<le> 2 ^ 63 - 1 \<longrightarrow> sint (word_of_int n :: u64) = n"
      by (simp add: sint_word_of_int_u64)
    with tag main show ?thesis by simp
  qed
  have p2: "readInt64 r = Inr (Err (BadPrefixForInt t), advance r 1)"
    if "\<not> int_tag t" and "at_cursor r [t]"
    using that by (intro readInt64_other) simp_all
  from p1 p2 show ?thesis by simp
qed

theorem readInt64_decodes_integers_witness:
  "readInt64 \<lparr>buffer = [0x05], byteOffset = 0\<rparr>
     = Inr (Ok 5, \<lparr>buffer = [0x05], byteOffset = 1\<rparr>)
   \<and> sint (5 :: u64) = 5
   \<and> readInt64 \<lparr>buffer = [0xc0], byteOffset = 0\<rparr>
     = Inr (Err (BadPrefixForInt 0xc0), \<lparr>buffer = [0xc0], byteOffset = 1\<rparr>)"
proof -
  have h1: "well_formed (MPosFixInt 5) \<and> int_of_msg (MPosFixInt 5) = Some 5
      \<and> at_cursor \<lparr>buffer = [0x05], byteOffset = 0\<rparr> (encode (MPosFixInt 5))"
    by (simp add: at_cursor_def)
  have h2: "\<not> int_tag 0xc0 \<and> at_cursor \<lparr>buffer = [0xc0], byteOffset = 0\<rparr> [0xc0]"
    by (simp add: at_cursor_def int_tag_def)
  show ?thesis
    using h1 h2
      readInt64_decodes_integers
        [where v = "MPosFixInt 5" and n = 5 and r = "\<lparr>buffer = [0x05], byteOffset = 0\<rparr>"]
      readInt64_decodes_integers
        [where t = "0xc0" and r = "\<lparr>buffer = [0xc0], byteOffset = 0\<rparr>"]
    by (simp add: advance_def)
qed

section \<open>The canonical unsigned reader\<close>

lemma readUInt64_fixint:
  "at_cursor r (x # cs) \<Longrightarrow> x \<le> 0x7f
    \<Longrightarrow> readUInt64 r = Inr (Ok (word_of_int (uint x)), advance r 1)"
proof -
  assume a: "at_cursor r (x # cs)" and x: "x \<le> 0x7f"
  from a have g: "getUint8 r = Inr (x, advance r 1)" by (rule getUint8_at)
  from x have "isFixedInt x" by (simp add: isFixedInt_unat word_le_nat_alt)
  then show ?thesis by (simp add: readUInt64_def bind_def ret_def g)
qed

lemma readUInt64_negfixint:
  "at_cursor r (x # cs) \<Longrightarrow> 0xe0 \<le> x
    \<Longrightarrow> readUInt64 r = Inr (Err (BadPrefixForUnsignedInt x), advance r 1)"
proof -
  assume a: "at_cursor r (x # cs)" and x: "0xe0 \<le> x"
  from a have g: "getUint8 r = Inr (x, advance r 1)" by (rule getUint8_at)
  from x have "isNegativeFixedInt x" "\<not> isFixedInt x"
    by (simp_all add: isNegativeFixedInt_unat isFixedInt_unat word_le_nat_alt)
  then show ?thesis by (simp add: readUInt64_def bind_def ret_def g)
qed

lemma readUInt64_other:
  assumes a: "at_cursor r (t # cs)" and t: "\<not> int_tag t"
  shows "readUInt64 r = Inr (Err (BadPrefixForUnsignedInt t), advance r 1)"
proof -
  from a have g: "getUint8 r = Inr (t, advance r 1)" by (rule getUint8_at)
  from t have u: "128 \<le> unat t" "unat t < 224" "unat t < 204 \<or> 211 < unat t"
    by (auto simp add: int_tag_def word_le_nat_alt)
  then have f: "\<not> isFixedInt t" "\<not> isNegativeFixedInt t"
    by (simp_all add: isFixedInt_unat isNegativeFixedInt_unat)
  from u have ne: "t \<noteq> INT8" "t \<noteq> INT16" "t \<noteq> INT32" "t \<noteq> INT64"
    "t \<noteq> UINT8" "t \<noteq> UINT16" "t \<noteq> UINT32" "t \<noteq> UINT64"
    by (auto simp add: Format_defs)
  show ?thesis by (simp add: readUInt64_def bind_def ret_def g f ne)
qed

lemma readUInt64_MNum:
  assumes a: "at_cursor r (num_tag k # bs @ cs)" and l: "length bs = num_width k"
    and n: "int_of_msg (MNum k bs) = Some n"
  shows "readUInt64 r
      = Inr (if 0 \<le> n then Ok (word_of_int n) else Err (IntegerUnderflowU64 n),
             advance r (1 + num_width k))
    \<and> n < 2 ^ 64"
proof -
  from a have g: "getUint8 r = Inr (num_tag k, advance r 1)" by (rule getUint8_at)
  let ?m = "be_nat bs"
  show ?thesis
  proof (cases k)
    case KFloat32
    with n show ?thesis by simp
  next
    case KFloat64
    with n show ?thesis by simp
  next
    case KUInt8
    with l have m: "?m < 2 ^ 8" using be_nat_bound [of bs 1] by simp
    from a l KUInt8 have p: "getUint8 (advance r (Suc 0)) = Inr (word_of_nat ?m, advance r 2)"
      by (intro payload8) simp_all
    have c: "(ucast (word_of_nat ?m :: u8) :: u64) = word_of_int (int ?m)"
      using m by (simp add: ucast_of_nat_up)
    from n KUInt8 have v: "n = int ?m" by simp
    have "readUInt64 r = Inr (Ok (word_of_int n), advance r 2)"
      using KUInt8 by (simp add: readUInt64_def bind_def ret_def g p c v tag_tests)
    then show ?thesis using m v KUInt8 by (simp add: advance_eq_iff)
  next
    case KUInt16
    with l have m: "?m < 2 ^ 16" using be_nat_bound [of bs 2] by simp
    from a l KUInt16 have p: "getUint16 (advance r (Suc 0)) = Inr (word_of_nat ?m, advance r 3)"
      by (intro payload16) simp_all
    have c: "(ucast (word_of_nat ?m :: u16) :: u64) = word_of_int (int ?m)"
      using m by (simp add: ucast_of_nat_up)
    from n KUInt16 have v: "n = int ?m" by simp
    have "readUInt64 r = Inr (Ok (word_of_int n), advance r 3)"
      using KUInt16 by (simp add: readUInt64_def bind_def ret_def g p c v tag_tests)
    then show ?thesis using m v KUInt16 by (simp add: advance_eq_iff)
  next
    case KUInt32
    with l have m: "?m < 2 ^ 32" using be_nat_bound [of bs 4] by simp
    from a l KUInt32 have p: "getUint32 (advance r (Suc 0)) = Inr (word_of_nat ?m, advance r 5)"
      by (intro payload32) simp_all
    have c: "(ucast (word_of_nat ?m :: u32) :: u64) = word_of_int (int ?m)"
      using m by (simp add: ucast_of_nat_up)
    from n KUInt32 have v: "n = int ?m" by simp
    have "readUInt64 r = Inr (Ok (word_of_int n), advance r 5)"
      using KUInt32 by (simp add: readUInt64_def bind_def ret_def g p c v tag_tests)
    then show ?thesis using m v KUInt32 by (simp add: advance_eq_iff)
  next
    case KUInt64
    with l have m: "?m < 2 ^ 64" using be_nat_bound [of bs 8] by simp
    from a l KUInt64 have p: "getUint64 (advance r (Suc 0)) = Inr (word_of_nat ?m, advance r 9)"
      by (intro payload64) simp_all
    from n KUInt64 have v: "n = int ?m" by simp
    have "readUInt64 r = Inr (Ok (word_of_int n), advance r 9)"
      using KUInt64 by (simp add: readUInt64_def bind_def ret_def g p v tag_tests)
    then show ?thesis using m v KUInt64 by (simp add: advance_eq_iff)
  next
    case KInt8
    with l have m: "?m < 2 ^ 8" using be_nat_bound [of bs 1] by simp
    from a l KInt8 have p: "getUint8 (advance r (Suc 0)) = Inr (word_of_nat ?m, advance r 2)"
      by (intro payload8) simp_all
    from n KInt8 have v: "n = twos 8 ?m" by simp
    have s: "sint (word_of_nat ?m :: u8) = n"
      using m sint_of_nat_twos [where ?'a = 8, of ?m] by (simp add: v)
    have c: "(scast (word_of_nat ?m :: u8) :: u64) = word_of_int n"
      using m by (simp add: scast_of_nat_twos v)
    have "readUInt64 r
        = Inr (if 0 \<le> n then Ok (word_of_int n) else Err (IntegerUnderflowU64 n),
               advance r 2)"
      using KInt8 by (simp add: readUInt64_def getInt8_def bind_def ret_def g p s c tag_tests)
    then show ?thesis using twos_8 [OF m] v KInt8 by (simp add: advance_eq_iff)
  next
    case KInt16
    with l have m: "?m < 2 ^ 16" using be_nat_bound [of bs 2] by simp
    from a l KInt16 have p: "getUint16 (advance r (Suc 0)) = Inr (word_of_nat ?m, advance r 3)"
      by (intro payload16) simp_all
    from n KInt16 have v: "n = twos 16 ?m" by simp
    have s: "sint (word_of_nat ?m :: u16) = n"
      using m sint_of_nat_twos [where ?'a = 16, of ?m] by (simp add: v)
    have c: "(scast (word_of_nat ?m :: u16) :: u64) = word_of_int n"
      using m by (simp add: scast_of_nat_twos v)
    have "readUInt64 r
        = Inr (if 0 \<le> n then Ok (word_of_int n) else Err (IntegerUnderflowU64 n),
               advance r 3)"
      using KInt16 by (simp add: readUInt64_def getInt16_def bind_def ret_def g p s c tag_tests)
    then show ?thesis using twos_16 [OF m] v KInt16 by (simp add: advance_eq_iff)
  next
    case KInt32
    with l have m: "?m < 2 ^ 32" using be_nat_bound [of bs 4] by simp
    from a l KInt32 have p: "getUint32 (advance r (Suc 0)) = Inr (word_of_nat ?m, advance r 5)"
      by (intro payload32) simp_all
    from n KInt32 have v: "n = twos 32 ?m" by simp
    have s: "sint (word_of_nat ?m :: u32) = n"
      using m sint_of_nat_twos [where ?'a = 32, of ?m] by (simp add: v)
    have c: "(scast (word_of_nat ?m :: u32) :: u64) = word_of_int n"
      using m by (simp add: scast_of_nat_twos v)
    have "readUInt64 r
        = Inr (if 0 \<le> n then Ok (word_of_int n) else Err (IntegerUnderflowU64 n),
               advance r 5)"
      using KInt32 by (simp add: readUInt64_def getInt32_def bind_def ret_def g p s c tag_tests)
    then show ?thesis using twos_32 [OF m] v KInt32 by (simp add: advance_eq_iff)
  next
    case KInt64
    with l have m: "?m < 2 ^ 64" using be_nat_bound [of bs 8] by simp
    from a l KInt64 have p: "getUint64 (advance r (Suc 0)) = Inr (word_of_nat ?m, advance r 9)"
      by (intro payload64) simp_all
    from n KInt64 have v: "n = twos 64 ?m" by simp
    have s: "sint (word_of_nat ?m :: u64) = n"
      using m sint_of_nat_twos [where ?'a = 64, of ?m] by (simp add: v)
    then have "(word_of_int n :: u64) = word_of_int (sint (word_of_nat ?m :: u64))"
      by (simp only:)
    then have c: "(word_of_nat ?m :: u64) = word_of_int n" by simp
    have "readUInt64 r
        = Inr (if 0 \<le> n then Ok (word_of_int n) else Err (IntegerUnderflowU64 n),
               advance r 9)"
      using KInt64 by (simp add: readUInt64_def getInt64_def bind_def ret_def g p s tag_tests)
        (simp add: c)
    then show ?thesis using twos_64 [OF m] v KInt64 by (simp add: advance_eq_iff)
  qed
qed

text \<open>
  C3. On a well-formed value of an integer form that encodes the integer \<open>n\<close>,
  \<open>readUInt64\<close> consumes the value; a negative fixint is rejected with the bad-tag error;
  any other form gives the \<open>u64\<close> whose unsigned reading is \<open>n\<close> if \<open>n\<close> is not negative,
  and the integer-underflow error otherwise, which only an int8 to int64 form can be. On
  a tag of no integer form \<open>readUInt64\<close> returns the bad-tag error.
\<close>

theorem readUInt64_decodes_integers:
  "(well_formed v \<and> int_of_msg v = Some n \<and> at_cursor r (encode v) \<longrightarrow>
        readUInt64 r
          = Inr (case v of
                   MNegFixInt x \<Rightarrow> Err (BadPrefixForUnsignedInt x)
                 | _ \<Rightarrow> if 0 \<le> n then Ok (word_of_int n) else Err (IntegerUnderflowU64 n),
                 advance r (length (encode v)))
      \<and> (0 \<le> n \<longrightarrow> uint (word_of_int n :: u64) = n)
      \<and> (n < 0 \<longrightarrow> (\<exists>x. v = MNegFixInt x)
            \<or> (\<exists>k bs. v = MNum k bs \<and> k \<in> {KInt8, KInt16, KInt32, KInt64})))
   \<and> (\<not> int_tag t \<and> at_cursor r [t] \<longrightarrow>
        readUInt64 r = Inr (Err (BadPrefixForUnsignedInt t), advance r 1))
   \<and> kind_of (BadPrefixForUnsignedInt t) = BadTag
   \<and> kind_of (IntegerUnderflowU64 n) = IntegerUnderflow"
proof -
  have p1: "readUInt64 r
          = Inr (case v of
                   MNegFixInt x \<Rightarrow> Err (BadPrefixForUnsignedInt x)
                 | _ \<Rightarrow> if 0 \<le> n then Ok (word_of_int n) else Err (IntegerUnderflowU64 n),
                 advance r (length (encode v)))
      \<and> (0 \<le> n \<longrightarrow> uint (word_of_int n :: u64) = n)
      \<and> (n < 0 \<longrightarrow> (\<exists>x. v = MNegFixInt x)
            \<or> (\<exists>k bs. v = MNum k bs \<and> k \<in> {KInt8, KInt16, KInt32, KInt64}))"
    if w: "well_formed v" and n: "int_of_msg v = Some n" and a: "at_cursor r (encode v)"
  proof (cases v)
    case (MPosFixInt x)
    with w a have r1: "readUInt64 r = Inr (Ok (word_of_int (uint x)), advance r 1)"
      by (intro readUInt64_fixint [where cs = "[]"]) simp_all
    from n MPosFixInt have nx: "n = uint x" by simp
    have "uint x < 2 ^ 8" using uint_bounded [of x] by simp
    then have "uint x < 2 ^ 64" by (rule less_trans) simp
    then have "uint (word_of_int n :: u64) = n"
      unfolding nx by (intro uint_word_of_int_u64) simp_all
    with r1 show ?thesis using MPosFixInt nx by simp
  next
    case (MNegFixInt x)
    with w a have r1: "readUInt64 r = Inr (Err (BadPrefixForUnsignedInt x), advance r 1)"
      by (intro readUInt64_negfixint [where cs = "[]"]) simp_all
    from n MNegFixInt have nx: "n = uint x - 256" by simp
    have "uint x < 2 ^ 8" using uint_bounded [of x] by simp
    then have "n < 0" unfolding nx by simp
    with r1 show ?thesis using MNegFixInt by simp
  next
    case (MNum k bs)
    with w a n have r: "readUInt64 r
          = Inr (if 0 \<le> n then Ok (word_of_int n) else Err (IntegerUnderflowU64 n),
                 advance r (1 + num_width k))
        \<and> n < 2 ^ 64"
      by (intro readUInt64_MNum [where cs = "[]"]) simp_all
    have k: "n < 0 \<longrightarrow> k \<in> {KInt8, KInt16, KInt32, KInt64}"
      using n MNum by (cases k) simp_all
    from r have u: "0 \<le> n \<longrightarrow> uint (word_of_int n :: u64) = n"
      by (intro impI uint_word_of_int_u64) simp_all
    from r k u show ?thesis using MNum w by simp
  qed (use n in simp_all)
  have p2: "readUInt64 r = Inr (Err (BadPrefixForUnsignedInt t), advance r 1)"
    if "\<not> int_tag t" and "at_cursor r [t]"
    using that by (intro readUInt64_other) simp_all
  from p1 p2 show ?thesis by simp
qed

theorem readUInt64_decodes_integers_witness:
  "readUInt64 \<lparr>buffer = [0xd0, 0x7f], byteOffset = 0\<rparr>
     = Inr (Ok 127, \<lparr>buffer = [0xd0, 0x7f], byteOffset = 2\<rparr>)
   \<and> readUInt64 \<lparr>buffer = [0xd0, 0xff], byteOffset = 0\<rparr>
     = Inr (Err (IntegerUnderflowU64 (- 1)), \<lparr>buffer = [0xd0, 0xff], byteOffset = 2\<rparr>)
   \<and> readUInt64 \<lparr>buffer = [0xff], byteOffset = 0\<rparr>
     = Inr (Err (BadPrefixForUnsignedInt 0xff), \<lparr>buffer = [0xff], byteOffset = 1\<rparr>)"
proof -
  have h1: "well_formed (MNum KInt8 [0x7f]) \<and> int_of_msg (MNum KInt8 [0x7f]) = Some 127
      \<and> at_cursor \<lparr>buffer = [0xd0, 0x7f], byteOffset = 0\<rparr> (encode (MNum KInt8 [0x7f]))"
    by (simp add: at_cursor_def INT8_def twos_def be_nat_def)
  have h2: "well_formed (MNum KInt8 [0xff]) \<and> int_of_msg (MNum KInt8 [0xff]) = Some (- 1)
      \<and> at_cursor \<lparr>buffer = [0xd0, 0xff], byteOffset = 0\<rparr> (encode (MNum KInt8 [0xff]))"
    by (simp add: at_cursor_def INT8_def twos_def be_nat_def)
  have h3: "well_formed (MNegFixInt 0xff) \<and> int_of_msg (MNegFixInt 0xff) = Some (- 1)
      \<and> at_cursor \<lparr>buffer = [0xff], byteOffset = 0\<rparr> (encode (MNegFixInt 0xff))"
    by (simp add: at_cursor_def)
  show ?thesis
    using h1 h2 h3
      readUInt64_decodes_integers
        [where v = "MNum KInt8 [0x7f]" and n = 127
          and r = "\<lparr>buffer = [0xd0, 0x7f], byteOffset = 0\<rparr>"]
      readUInt64_decodes_integers
        [where v = "MNum KInt8 [0xff]" and n = "- 1"
          and r = "\<lparr>buffer = [0xd0, 0xff], byteOffset = 0\<rparr>"]
      readUInt64_decodes_integers
        [where v = "MNegFixInt 0xff" and n = "- 1"
          and r = "\<lparr>buffer = [0xff], byteOffset = 0\<rparr>"]
    by (simp add: advance_def)
qed

section \<open>The narrower readers\<close>

lemma ucast_down_sint:
  assumes l: "LENGTH('a::len) \<le> 64"
  shows "(ucast (v::u64) :: 'a word) = word_of_int (sint v)"
proof (rule bit_word_eqI)
  fix n
  assume n: "n < LENGTH('a)"
  show "bit (ucast v :: 'a word) n = bit (word_of_int (sint v) :: 'a word) n"
  proof (cases "n < 63")
    case True
    with n show ?thesis by (simp add: bit_simps min_def)
  next
    case False
    with n l have "n = 63" by simp
    then show ?thesis using n by (simp add: bit_simps)
  qed
qed

lemma sint_word_of_int_8: "- 128 \<le> k \<Longrightarrow> k < 128 \<Longrightarrow> sint (word_of_int k :: u8) = k"
  by (simp add: signed_of_int signed_take_bit_int_eq_self)

lemma sint_word_of_int_16:
  "- 32768 \<le> k \<Longrightarrow> k < 32768 \<Longrightarrow> sint (word_of_int k :: u16) = k"
  by (simp add: signed_of_int signed_take_bit_int_eq_self)

lemma sint_word_of_int_32:
  "- 2147483648 \<le> k \<Longrightarrow> k < 2147483648 \<Longrightarrow> sint (word_of_int k :: u32) = k"
  by (simp add: signed_of_int signed_take_bit_int_eq_self)

lemma uint_word_of_int_8: "0 \<le> k \<Longrightarrow> k < 256 \<Longrightarrow> uint (word_of_int k :: u8) = k"
  by (simp add: uint_word_of_int_eq take_bit_int_eq_self)

lemma uint_word_of_int_16: "0 \<le> k \<Longrightarrow> k < 65536 \<Longrightarrow> uint (word_of_int k :: u16) = k"
  by (simp add: uint_word_of_int_eq take_bit_int_eq_self)

lemma uint_word_of_int_32:
  "0 \<le> k \<Longrightarrow> k < 4294967296 \<Longrightarrow> uint (word_of_int k :: u32) = k"
  by (simp add: uint_word_of_int_eq take_bit_int_eq_self)

lemma readInt8_checked: "range_checked_signed 8 (readInt64 r) (readInt8 r)"
proof (cases "readInt64 r")
  case (Inl x)
  then show ?thesis by (simp add: range_checked_signed_def readInt8_def bind_def)
next
  case (Inr p)
  obtain res r' where p: "p = (res, r')" by (cases p)
  show ?thesis
  proof (cases res)
    case (Err e)
    with Inr p show ?thesis
      by (simp add: range_checked_signed_def readInt8_def bind_def ret_def)
  next
    case (Ok w)
    have c: "(ucast w :: u8) = word_of_int (sint w)" by (rule ucast_down_sint) simp
    have s: "- 128 \<le> sint w \<Longrightarrow> sint w < 128 \<Longrightarrow> sint (word_of_int (sint w) :: u8) = sint w"
      by (rule sint_word_of_int_8)
    from Inr p Ok show ?thesis
      by (auto simp add: range_checked_signed_def readInt8_def bind_def ret_def c s
          simp del: of_int_sint)
  qed
qed


lemma readInt16_checked: "range_checked_signed 16 (readInt64 r) (readInt16 r)"
proof (cases "readInt64 r")
  case (Inl x)
  then show ?thesis by (simp add: range_checked_signed_def readInt16_def bind_def)
next
  case (Inr p)
  obtain res r' where p: "p = (res, r')" by (cases p)
  show ?thesis
  proof (cases res)
    case (Err e)
    with Inr p show ?thesis
      by (simp add: range_checked_signed_def readInt16_def bind_def ret_def)
  next
    case (Ok w)
    have c: "(ucast w :: u16) = word_of_int (sint w)" by (rule ucast_down_sint) simp
    have s: "- 32768 \<le> sint w \<Longrightarrow> sint w < 32768
        \<Longrightarrow> sint (word_of_int (sint w) :: u16) = sint w"
      by (rule sint_word_of_int_16)
    from Inr p Ok show ?thesis
      by (auto simp add: range_checked_signed_def readInt16_def bind_def ret_def c s
          simp del: of_int_sint)
  qed
qed

lemma readInt32_checked: "range_checked_signed 32 (readInt64 r) (readInt32 r)"
proof (cases "readInt64 r")
  case (Inl x)
  then show ?thesis by (simp add: range_checked_signed_def readInt32_def bind_def)
next
  case (Inr p)
  obtain res r' where p: "p = (res, r')" by (cases p)
  show ?thesis
  proof (cases res)
    case (Err e)
    with Inr p show ?thesis
      by (simp add: range_checked_signed_def readInt32_def bind_def ret_def)
  next
    case (Ok w)
    have c: "(ucast w :: u32) = word_of_int (sint w)" by (rule ucast_down_sint) simp
    have s: "- 2147483648 \<le> sint w \<Longrightarrow> sint w < 2147483648
        \<Longrightarrow> sint (word_of_int (sint w) :: u32) = sint w"
      by (rule sint_word_of_int_32)
    from Inr p Ok show ?thesis
      by (auto simp add: range_checked_signed_def readInt32_def bind_def ret_def c s
          simp del: of_int_sint)
  qed
qed

lemma readUInt8_checked: "range_checked_unsigned 8 (readUInt64 r) (readUInt8 r)"
proof (cases "readUInt64 r")
  case (Inl x)
  then show ?thesis by (simp add: range_checked_unsigned_def readUInt8_def bind_def)
next
  case (Inr p)
  obtain res r' where p: "p = (res, r')" by (cases p)
  show ?thesis
  proof (cases res)
    case (Err e)
    with Inr p show ?thesis
      by (simp add: range_checked_unsigned_def readUInt8_def bind_def ret_def)
  next
    case (Ok w)
    have c: "(ucast w :: u8) = word_of_int (uint w)" by (rule ucast_eq)
    have l: "(w \<le> 0xff) = (uint w < 256)" by (simp add: word_le_def) arith
    have s: "uint w < 256 \<Longrightarrow> uint (word_of_int (uint w) :: u8) = uint w"
      by (rule uint_word_of_int_8) simp_all
    from Inr p Ok show ?thesis
      by (auto simp add: range_checked_unsigned_def readUInt8_def bind_def ret_def c l s
          simp del: of_int_uint)
  qed
qed

lemma readUInt16_checked: "range_checked_unsigned 16 (readUInt64 r) (readUInt16 r)"
proof (cases "readUInt64 r")
  case (Inl x)
  then show ?thesis by (simp add: range_checked_unsigned_def readUInt16_def bind_def)
next
  case (Inr p)
  obtain res r' where p: "p = (res, r')" by (cases p)
  show ?thesis
  proof (cases res)
    case (Err e)
    with Inr p show ?thesis
      by (simp add: range_checked_unsigned_def readUInt16_def bind_def ret_def)
  next
    case (Ok w)
    have c: "(ucast w :: u16) = word_of_int (uint w)" by (rule ucast_eq)
    have l: "(w \<le> 0xffff) = (uint w < 65536)" by (simp add: word_le_def) arith
    have s: "uint w < 65536 \<Longrightarrow> uint (word_of_int (uint w) :: u16) = uint w"
      by (rule uint_word_of_int_16) simp_all
    from Inr p Ok show ?thesis
      by (auto simp add: range_checked_unsigned_def readUInt16_def bind_def ret_def c l s
          simp del: of_int_uint)
  qed
qed

lemma readUInt32_checked: "range_checked_unsigned 32 (readUInt64 r) (readUInt32 r)"
proof (cases "readUInt64 r")
  case (Inl x)
  then show ?thesis by (simp add: range_checked_unsigned_def readUInt32_def bind_def)
next
  case (Inr p)
  obtain res r' where p: "p = (res, r')" by (cases p)
  show ?thesis
  proof (cases res)
    case (Err e)
    with Inr p show ?thesis
      by (simp add: range_checked_unsigned_def readUInt32_def bind_def ret_def)
  next
    case (Ok w)
    have c: "(ucast w :: u32) = word_of_int (uint w)" by (rule ucast_eq)
    have l: "(w \<le> 0xffffffff) = (uint w < 4294967296)" by (simp add: word_le_def) arith
    have s: "uint w < 4294967296 \<Longrightarrow> uint (word_of_int (uint w) :: u32) = uint w"
      by (rule uint_word_of_int_32) simp_all
    from Inr p Ok show ?thesis
      by (auto simp add: range_checked_unsigned_def readUInt32_def bind_def ret_def c l s
          simp del: of_int_uint)
  qed
qed

text \<open>
  C4. Each narrower integer reader passes on an exception or an error of the canonical
  64-bit reader, returns a value inside the range of its type with the same reading and
  at the same cursor, and turns a value outside the range into the overflow error with
  the value and the width. On the bytes 0xcc 0xff (uint8, 255) \<open>readUInt8\<close> returns 255 and
  \<open>readInt8\<close> fails with the integer overflow; on the bytes 0xd0 0x80 (int8, -128)
  \<open>readInt8\<close> returns -128 and \<open>readUInt8\<close> fails with the integer underflow.
\<close>

theorem narrower_readers_range_check:
  "range_checked_signed 8 (readInt64 r) (readInt8 r)
   \<and> range_checked_signed 16 (readInt64 r) (readInt16 r)
   \<and> range_checked_signed 32 (readInt64 r) (readInt32 r)
   \<and> range_checked_unsigned 8 (readUInt64 r) (readUInt8 r)
   \<and> range_checked_unsigned 16 (readUInt64 r) (readUInt16 r)
   \<and> range_checked_unsigned 32 (readUInt64 r) (readUInt32 r)
   \<and> readUInt8 \<lparr>buffer = [0xcc, 0xff], byteOffset = 0\<rparr>
       = Inr (Ok 255, \<lparr>buffer = [0xcc, 0xff], byteOffset = 2\<rparr>)
   \<and> readInt8 \<lparr>buffer = [0xcc, 0xff], byteOffset = 0\<rparr>
       = Inr (Err (IntegerOverflowBits 255 8), \<lparr>buffer = [0xcc, 0xff], byteOffset = 2\<rparr>)
   \<and> kind_of (IntegerOverflowBits 255 8) = IntegerOverflow
   \<and> readInt8 \<lparr>buffer = [0xd0, 0x80], byteOffset = 0\<rparr>
       = Inr (Ok 0x80, \<lparr>buffer = [0xd0, 0x80], byteOffset = 2\<rparr>)
   \<and> sint (0x80 :: u8) = - 128
   \<and> readUInt8 \<lparr>buffer = [0xd0, 0x80], byteOffset = 0\<rparr>
       = Inr (Err (IntegerUnderflowU64 (- 128)), \<lparr>buffer = [0xd0, 0x80], byteOffset = 2\<rparr>)
   \<and> kind_of (IntegerUnderflowU64 (- 128)) = IntegerUnderflow"
proof -
  let ?a = "\<lparr>buffer = [0xcc, 0xff], byteOffset = 0\<rparr>"
  let ?b = "\<lparr>buffer = [0xd0, 0x80], byteOffset = 0\<rparr>"
  have a: "at_cursor ?a (num_tag KUInt8 # [0xff] @ [])"
    by (simp add: at_cursor_def UINT8_def)
  have b: "at_cursor ?b (num_tag KInt8 # [0x80] @ [])"
    by (simp add: at_cursor_def INT8_def)
  have na: "int_of_msg (MNum KUInt8 [0xff]) = Some 255" by (simp add: be_nat_def)
  have nb: "int_of_msg (MNum KInt8 [0x80]) = Some (- 128)" by (simp add: be_nat_def twos_def)
  have ua: "readUInt64 ?a = Inr (Ok 255, \<lparr>buffer = [0xcc, 0xff], byteOffset = 2\<rparr>)"
    using readUInt64_MNum [OF a _ na] by (simp add: advance_def)
  have ia: "readInt64 ?a = Inr (Ok 255, \<lparr>buffer = [0xcc, 0xff], byteOffset = 2\<rparr>)"
    using readInt64_MNum [OF a _ na] by (simp add: advance_def)
  have ub: "readUInt64 ?b
      = Inr (Err (IntegerUnderflowU64 (- 128)), \<lparr>buffer = [0xd0, 0x80], byteOffset = 2\<rparr>)"
    using readUInt64_MNum [OF b _ nb] by (simp add: advance_def)
  have ib: "readInt64 ?b
      = Inr (Ok (- 128), \<lparr>buffer = [0xd0, 0x80], byteOffset = 2\<rparr>)"
    using readInt64_MNum [OF b _ nb] by (simp add: advance_def)
  have e1: "readUInt8 ?a = Inr (Ok 255, \<lparr>buffer = [0xcc, 0xff], byteOffset = 2\<rparr>)"
    by (simp add: readUInt8_def bind_def ret_def ua)
  have e2: "readInt8 ?a
      = Inr (Err (IntegerOverflowBits 255 8), \<lparr>buffer = [0xcc, 0xff], byteOffset = 2\<rparr>)"
    by (simp add: readInt8_def bind_def ret_def ia)
  have e3: "readInt8 ?b = Inr (Ok 0x80, \<lparr>buffer = [0xd0, 0x80], byteOffset = 2\<rparr>)"
    by (simp add: readInt8_def bind_def ret_def ib)
  have e4: "readUInt8 ?b
      = Inr (Err (IntegerUnderflowU64 (- 128)), \<lparr>buffer = [0xd0, 0x80], byteOffset = 2\<rparr>)"
    by (simp add: readUInt8_def bind_def ret_def ub)
  have e5: "sint (0x80 :: u8) = - 128" by simp
  show ?thesis
    using readInt8_checked [of r] readInt16_checked [of r] readInt32_checked [of r]
      readUInt8_checked [of r] readUInt16_checked [of r] readUInt32_checked [of r]
      e1 e2 e3 e4 e5
    by simp
qed

section \<open>Signed child counts\<close>

lemma getSize_array32:
  assumes a: "at_cursor r (ARRAY32 # be_bytes 4 n @ cs)" and n: "n < 2 ^ 32"
  shows "getSize r = Inr (word_of_nat n, advance r 5)"
proof -
  from a have g: "getUint8 r = Inr (ARRAY32, advance r 1)" by (rule getUint8_at)
  from a have "at_cursor (advance r 1) (be_bytes 4 n @ cs)" by (rule at_cursor_Cons)
  then have "getUint32 (advance r 1) = Inr (word_of_nat n, advance (advance r 1) 4)"
    using n by (rule getUint32_be)
  then have p: "getUint32 (advance r (Suc 0)) = Inr (word_of_nat n, advance r 5)"
    by (simp add: advance_advance)
  show ?thesis by (simp add: getSize_def bind_def ret_def g p tag_tests)
qed

lemma getSize_map32:
  assumes a: "at_cursor r (MAP32 # be_bytes 4 n @ cs)" and n: "n < 2 ^ 32"
  shows "getSize r = Inr (2 * word_of_nat n, advance r 5)"
proof -
  from a have g: "getUint8 r = Inr (MAP32, advance r 1)" by (rule getUint8_at)
  from a have "at_cursor (advance r 1) (be_bytes 4 n @ cs)" by (rule at_cursor_Cons)
  then have "getUint32 (advance r 1) = Inr (word_of_nat n, advance (advance r 1) 4)"
    using n by (rule getUint32_be)
  then have p: "getUint32 (advance r (Suc 0)) = Inr (word_of_nat n, advance r 5)"
    by (simp add: advance_advance)
  show ?thesis by (simp add: getSize_def bind_def ret_def g p tag_tests)
qed

lemma skip_no_children:
  "getSize r = Inr (c, r') \<Longrightarrow> \<not> 0 < sint c
    \<Longrightarrow> skip (Suc (Suc fuel)) r = Some (Inr ((), r'))"
  by simp

lemma sint_u32_of_nat: "n < 2 ^ 32 \<Longrightarrow> sint (word_of_nat n :: u32) = twos 32 n"
  using sint_of_nat_twos [where ?'a = 32, of n] by simp

lemma sint_doubled:
  "sint (2 * word_of_nat n :: u32) = twos 32 ((2 * n) mod 2 ^ 32)"
proof -
  have "(2 * word_of_nat n :: u32) = word_of_nat (2 * n)" by simp
  also have "\<dots> = word_of_nat ((2 * n) mod 2 ^ 32)"
    by (simp only: word_of_nat_eq_iff) (simp add: take_bit_eq_mod)
  finally have "sint (2 * word_of_nat n :: u32) = sint (word_of_nat ((2 * n) mod 2 ^ 32) :: u32)"
    by (simp only:)
  also have "\<dots> = twos 32 ((2 * n) mod 2 ^ 32)"
    by (rule sint_u32_of_nat) simp
  finally show ?thesis .
qed


text \<open>
  C9, as the claim states it, fails: a map32 header with 2^31 + 1 pairs gives the child
  count 2, which is not negative, and \<open>skip\<close> then discards two objects.
\<close>

theorem map32_count_counterexample:
  "be_nat [0x80, 0x00, 0x00, 0x01] = 2 ^ 31 + 1
   \<and> getSize \<lparr>buffer = [0xdf, 0x80, 0x00, 0x00, 0x01, 0xc0, 0xc0], byteOffset = 0\<rparr>
       = Inr (2, \<lparr>buffer = [0xdf, 0x80, 0x00, 0x00, 0x01, 0xc0, 0xc0], byteOffset = 5\<rparr>)
   \<and> \<not> sint (2 :: u32) < 0
   \<and> skip 5 \<lparr>buffer = [0xdf, 0x80, 0x00, 0x00, 0x01, 0xc0, 0xc0], byteOffset = 0\<rparr>
       = Some (Inr ((), \<lparr>buffer = [0xdf, 0x80, 0x00, 0x00, 0x01, 0xc0, 0xc0],
                          byteOffset = 7\<rparr>))"
proof -
  let ?buf = "[0xdf, 0x80, 0x00, 0x00, 0x01, 0xc0, 0xc0] :: u8 list"
  let ?r = "\<lambda>k. \<lparr>buffer = ?buf, byteOffset = k\<rparr>"
  have b: "be_nat [0x80, 0x00, 0x00, 0x01] = 2 ^ 31 + 1" by (simp add: be_nat_def)
  have "at_cursor (?r 0) (MAP32 # be_bytes 4 (2 ^ 31 + 1) @ [0xc0, 0xc0])"
    by (simp add: at_cursor_def MAP32_def be_bytes_4)
  then have "getSize (?r 0) = Inr (2 * word_of_nat (2 ^ 31 + 1), advance (?r 0) 5)"
    by (rule getSize_map32) simp
  then have g0: "getSize (?r 0) = Inr (2, ?r 5)" by (simp add: advance_def)
  have "getUint8 (?r 5) = Inr (0xc0, advance (?r 5) 1)"
    by (rule getUint8_at [where cs = "[0xc0]"]) (simp add: at_cursor_def)
  then have g5: "getSize (?r 5) = Inr (0, ?r 6)"
    by (simp add: getSize_def bind_def ret_def tag_tests advance_def)
  have "getUint8 (?r 6) = Inr (0xc0, advance (?r 6) 1)"
    by (rule getUint8_at [where cs = "[]"]) (simp add: at_cursor_def)
  then have g6: "getSize (?r 6) = Inr (0, ?r 7)"
    by (simp add: getSize_def bind_def ret_def tag_tests advance_def)
  have s6: "skip (Suc (Suc 0)) (?r 6) = Some (Inr ((), ?r 7))"
    using g6 by (rule skip_no_children) simp
  have l1: "skip_loop (Suc (Suc (Suc 0))) 1 (?r 6) = Some (Inr ((), ?r 7))"
    using s6 by simp
  have s5: "skip (Suc (Suc (Suc 0))) (?r 5) = Some (Inr ((), ?r 6))"
    using g5 by (rule skip_no_children) simp
  have l2: "skip_loop (Suc (Suc (Suc (Suc 0)))) 2 (?r 5) = Some (Inr ((), ?r 7))"
    using s5 l1 by simp
  have "skip (Suc (Suc (Suc (Suc (Suc 0))))) (?r 0) = Some (Inr ((), ?r 7))"
    using g0 l2 by simp
  moreover have "(5::nat) = Suc (Suc (Suc (Suc (Suc 0))))" by simp
  ultimately have "skip 5 (?r 0) = Some (Inr ((), ?r 7))" by (simp only:)
  with b g0 show ?thesis by simp
qed

text \<open>
  C9, amended. \<open>getSize\<close> returns the count of an array32 header, and twice the pair count
  of a map32 header taken modulo 2^32, as a signed 32-bit number. It is negative for an
  array32 count from 2^31, and for a map32 pair count from 2^30 up to 2^31 - 1 or from
  3 * 2^30; \<open>skip\<close> then stops after the header and discards no child. A map32 pair count
  from 2^31 up to 3 * 2^30 - 1 gives a count that is not negative.
\<close>

theorem getSize_signed_child_count:
  "(at_cursor r (array_header C32 n) \<and> 2 ^ 31 \<le> n \<and> n < 2 ^ 32 \<longrightarrow>
        getSize r = Inr (word_of_nat n, advance r 5)
      \<and> sint (word_of_nat n :: u32) = int n - 2 ^ 32
      \<and> sint (word_of_nat n :: u32) < 0
      \<and> skip (Suc (Suc fuel)) r = Some (Inr ((), advance r 5)))
   \<and> (at_cursor r (map_header C32 n)
        \<and> (2 ^ 30 \<le> n \<and> n < 2 ^ 31 \<or> 3 * 2 ^ 30 \<le> n \<and> n < 2 ^ 32) \<longrightarrow>
        getSize r = Inr (2 * word_of_nat n, advance r 5)
      \<and> sint (2 * word_of_nat n :: u32) < 0
      \<and> skip (Suc (Suc fuel)) r = Some (Inr ((), advance r 5)))
   \<and> (at_cursor r (map_header C32 n) \<and> 2 ^ 31 \<le> n \<and> n < 3 * 2 ^ 30 \<longrightarrow>
        getSize r = Inr (2 * word_of_nat n, advance r 5)
      \<and> sint (2 * word_of_nat n :: u32) = 2 * int n - 2 ^ 32
      \<and> 0 \<le> sint (2 * word_of_nat n :: u32))"
proof -
  have p1: "getSize r = Inr (word_of_nat n, advance r 5)
      \<and> sint (word_of_nat n :: u32) = int n - 2 ^ 32
      \<and> sint (word_of_nat n :: u32) < 0
      \<and> skip (Suc (Suc fuel)) r = Some (Inr ((), advance r 5))"
    if a: "at_cursor r (array_header C32 n)" and lo: "2 ^ 31 \<le> n" and hi: "n < 2 ^ 32"
  proof -
    from a have "at_cursor r (ARRAY32 # be_bytes 4 n @ [])" by simp
    then have g: "getSize r = Inr (word_of_nat n, advance r 5)"
      using hi by (rule getSize_array32)
    have s: "sint (word_of_nat n :: u32) = int n - 2 ^ 32"
      using lo hi by (simp add: sint_u32_of_nat twos_def)
    have neg: "sint (word_of_nat n :: u32) < 0" using hi by (simp add: s)
    then have "\<not> 0 < sint (word_of_nat n :: u32)" by simp
    with g have "skip (Suc (Suc fuel)) r = Some (Inr ((), advance r 5))"
      by (rule skip_no_children)
    with g s neg show ?thesis by simp
  qed
  have m: "getSize r = Inr (2 * word_of_nat n, advance r 5)"
    if a: "at_cursor r (map_header C32 n)" and hi: "n < 2 ^ 32"
  proof -
    from a have "at_cursor r (MAP32 # be_bytes 4 n @ [])" by simp
    then show ?thesis using hi by (rule getSize_map32)
  qed
  have p2: "getSize r = Inr (2 * word_of_nat n, advance r 5)
      \<and> sint (2 * word_of_nat n :: u32) < 0
      \<and> skip (Suc (Suc fuel)) r = Some (Inr ((), advance r 5))"
    if a: "at_cursor r (map_header C32 n)"
      and n: "2 ^ 30 \<le> n \<and> n < 2 ^ 31 \<or> 3 * 2 ^ 30 \<le> n \<and> n < 2 ^ 32"
  proof -
    from n have hi: "n < 2 ^ 32" by auto
    from a hi have g: "getSize r = Inr (2 * word_of_nat n, advance r 5)" by (rule m)
    have neg: "sint (2 * word_of_nat n :: u32) < 0"
    proof (cases "n < 2 ^ 31")
      case True
      with n have "2 ^ 30 \<le> n" by auto
      with True have "(2 * n) mod 2 ^ 32 = 2 * n" "2 ^ 31 \<le> 2 * n" "2 * n < 2 ^ 32"
        by simp_all
      then show ?thesis by (simp add: sint_doubled twos_def)
    next
      case False
      with n have lo: "3 * 2 ^ 30 \<le> n" by auto
      have "(2 * n - 2 ^ 32) mod 2 ^ 32 = 2 * n - 2 ^ 32"
        using lo hi by (intro mod_less) simp
      moreover have "(2 * n - 2 ^ 32) mod 2 ^ 32 = (2 * n) mod 2 ^ 32"
        using lo by (simp add: le_mod_geq)
      ultimately have e: "(2 * n) mod 4294967296 = 2 * n - 4294967296" by simp
      show ?thesis using lo hi by (simp add: sint_doubled e twos_def)
    qed
    then have "\<not> 0 < sint (2 * word_of_nat n :: u32)" by simp
    with g have "skip (Suc (Suc fuel)) r = Some (Inr ((), advance r 5))"
      by (rule skip_no_children)
    with g neg show ?thesis by simp
  qed
  have p3: "getSize r = Inr (2 * word_of_nat n, advance r 5)
      \<and> sint (2 * word_of_nat n :: u32) = 2 * int n - 2 ^ 32
      \<and> 0 \<le> sint (2 * word_of_nat n :: u32)"
    if a: "at_cursor r (map_header C32 n)" and lo: "2 ^ 31 \<le> n" and hi: "n < 3 * 2 ^ 30"
  proof -
    from hi have hi': "n < 2 ^ 32" by simp
    from a hi' have g: "getSize r = Inr (2 * word_of_nat n, advance r 5)" by (rule m)
    have "(2 * n - 2 ^ 32) mod 2 ^ 32 = 2 * n - 2 ^ 32"
      using lo hi by (intro mod_less) simp
    moreover have "(2 * n - 2 ^ 32) mod 2 ^ 32 = (2 * n) mod 2 ^ 32"
      using lo by (simp add: le_mod_geq)
    ultimately have e: "(2 * n) mod 4294967296 = 2 * n - 4294967296" by simp
    have s: "sint (2 * word_of_nat n :: u32) = 2 * int n - 2 ^ 32"
      using lo hi by (simp add: sint_doubled e twos_def of_nat_diff)
    with g lo show ?thesis by simp
  qed
  from p1 p2 p3 show ?thesis by blast
qed

theorem getSize_signed_child_count_witness:
  "getSize \<lparr>buffer = [0xdd, 0x80, 0x00, 0x00, 0x00], byteOffset = 0\<rparr>
     = Inr (0x80000000, \<lparr>buffer = [0xdd, 0x80, 0x00, 0x00, 0x00], byteOffset = 5\<rparr>)
   \<and> sint (0x80000000 :: u32) < 0
   \<and> skip 2 \<lparr>buffer = [0xdd, 0x80, 0x00, 0x00, 0x00], byteOffset = 0\<rparr>
     = Some (Inr ((), \<lparr>buffer = [0xdd, 0x80, 0x00, 0x00, 0x00], byteOffset = 5\<rparr>))
   \<and> getSize \<lparr>buffer = [0xdf, 0x40, 0x00, 0x00, 0x00], byteOffset = 0\<rparr>
     = Inr (0x80000000, \<lparr>buffer = [0xdf, 0x40, 0x00, 0x00, 0x00], byteOffset = 5\<rparr>)
   \<and> skip 2 \<lparr>buffer = [0xdf, 0x40, 0x00, 0x00, 0x00], byteOffset = 0\<rparr>
     = Some (Inr ((), \<lparr>buffer = [0xdf, 0x40, 0x00, 0x00, 0x00], byteOffset = 5\<rparr>))"
proof -
  let ?a = "\<lparr>buffer = [0xdd, 0x80, 0x00, 0x00, 0x00], byteOffset = 0\<rparr>"
  let ?m = "\<lparr>buffer = [0xdf, 0x40, 0x00, 0x00, 0x00], byteOffset = 0\<rparr>"
  have h1: "at_cursor ?a (array_header C32 (2 ^ 31)) \<and> (2::nat) ^ 31 \<le> 2 ^ 31
      \<and> (2::nat) ^ 31 < 2 ^ 32"
    by (simp add: at_cursor_def ARRAY32_def be_bytes_4)
  have h2: "at_cursor ?m (map_header C32 (2 ^ 30))
      \<and> ((2::nat) ^ 30 \<le> 2 ^ 30 \<and> (2::nat) ^ 30 < 2 ^ 31
          \<or> 3 * 2 ^ 30 \<le> (2::nat) ^ 30 \<and> (2::nat) ^ 30 < 2 ^ 32)"
    by (simp add: at_cursor_def MAP32_def be_bytes_4)
  show ?thesis
    using h1 h2
      getSize_signed_child_count [where r = ?a and n = "2 ^ 31" and fuel = 0]
      getSize_signed_child_count [where r = ?m and n = "2 ^ 30" and fuel = 0]
    by (simp add: advance_def numeral_2_eq_2)
qed

section \<open>Generic array decoding\<close>

lemma unat_succ_below: "i < sz \<Longrightarrow> unat (i + 1) = Suc (unat i)" for i sz :: u32
  by unat_arith

lemma readArray_loop_decode:
  "i \<le> sz \<Longrightarrow>
     readArray_loop fn sz i a r =
       (case decode_elements fn [unat i..<unat sz] r of
          Inl x \<Rightarrow> Inl x
        | Inr (Err e, r') \<Rightarrow> Inr (Err e, r')
        | Inr (Ok items, r') \<Rightarrow> Inr (Ok (a @ items), r'))"
proof (induction fn sz i a r rule: readArray_loop.induct)
  case (1 fn sz i a r)
  show ?case
  proof (cases "i < sz")
    case True
    then have u: "unat i < unat sz" by (simp add: word_less_nat_alt)
    have s: "unat (i + 1) = Suc (unat i)" using True by (rule unat_succ_below)
    have le: "i + 1 \<le> sz" using True by (rule inc_le)
    have l: "[unat i..<unat sz] = unat i # [unat (i + 1)..<unat sz]"
      using u by (simp add: upt_conv_Cons s)
    show ?thesis
    proof (cases "fn (Some i) r")
      case (Inl x)
      with True show ?thesis
        by (subst readArray_loop.simps) (simp add: l)
    next
      case (Inr p)
      obtain res r' where p: "p = (res, r')" by (cases p)
      show ?thesis
      proof (cases res)
        case (Err e)
        with True Inr p show ?thesis
          by (subst readArray_loop.simps) (simp add: l)
      next
        case (Ok item)
        have "readArray_loop fn sz (i + 1) (a @ [item]) r' =
            (case decode_elements fn [unat (i + 1)..<unat sz] r' of
               Inl x \<Rightarrow> Inl x
             | Inr (Err e, r'') \<Rightarrow> Inr (Err e, r'')
             | Inr (Ok items, r'') \<Rightarrow> Inr (Ok ((a @ [item]) @ items), r''))"
          using True Inr p Ok le by (intro "1.IH") simp_all
        with True Inr p Ok show ?thesis
          by (subst readArray_loop.simps)
            (simp add: l split: sum.splits prod.splits Result.splits)
      qed
    qed
  next
    case False
    with "1.prems" have "i = sz" by simp
    then show ?thesis by (subst readArray_loop.simps) simp
  qed
qed

text \<open>
  The \<open>readArray\<close> of the \<open>SafeDecoder\<close> is the generic array decoding of the
  specification: it resolves the size and runs the element decoder on the indices
  \<open>0, ..., size - 1\<close> in this order, each with its index, up to the first failure.
\<close>

lemma readArray_decode_elements:
  "readArray fn r =
     (case readArraySize r of
        Inl x \<Rightarrow> Inl x
      | Inr (Err e, r') \<Rightarrow> Inr (Err e, r')
      | Inr (Ok sz, r') \<Rightarrow> decode_elements fn [0..<unat sz] r')"
proof (cases "readArraySize r")
  case (Inl x)
  then show ?thesis by (simp add: readArray_def bind_def)
next
  case (Inr p)
  obtain res r' where p: "p = (res, r')" by (cases p)
  show ?thesis
  proof (cases res)
    case (Err e)
    with Inr p show ?thesis by (simp add: readArray_def bind_def ret_def)
  next
    case (Ok sz)
    have "readArray_loop fn sz 0 [] r' = 
       (case decode_elements fn [unat (0::u32)..<unat sz] r' of
          Inl x \<Rightarrow> Inl x
        | Inr (Err e, r'') \<Rightarrow> Inr (Err e, r'')
        | Inr (Ok items, r'') \<Rightarrow> Inr (Ok ([] @ items), r''))"
      by (rule readArray_loop_decode) simp
    with Inr p Ok show ?thesis
      by (simp add: readArray_def bind_def ret_def split: sum.splits prod.splits Result.splits)
  qed
qed

text \<open>
  An element decoder that agrees with \<open>fn\<close> on the indices before and at the first failure
  gives the same failure: the result does not depend on any later element.
\<close>

lemma decode_elements_fail_fast:
  "decode_elements fn (is @ [k]) r = Inr (Err e, r')
    \<Longrightarrow> decode_elements fn (is @ k # js) r = Inr (Err e, r')"
proof (induction "is" arbitrary: r)
  case Nil
  then show ?case by (auto split: sum.splits prod.splits Result.splits)
next
  case (Cons i "is")
  then show ?case by (auto split: sum.splits prod.splits Result.splits)
qed


lemma readArraySize_two:
  "readArraySize \<lparr>buffer = [0x92, 0x0a, 0x0b], byteOffset = 0\<rparr>
     = Inr (Ok 2, \<lparr>buffer = [0x92, 0x0a, 0x0b], byteOffset = 1\<rparr>)"
proof -
  let ?r = "\<lparr>buffer = [0x92, 0x0a, 0x0b], byteOffset = 0\<rparr>"
  have "getUint8 ?r = Inr (0x92, advance ?r 1)"
    by (rule getUint8_at [where cs = "[0x0a, 0x0b]"]) (simp add: at_cursor_def)
  then show ?thesis
    by (simp add: readArraySize_def bind_def ret_def tag_tests advance_def)
qed

lemma element_bytes:
  "getUint8 \<lparr>buffer = [0x92, 0x0a, 0x0b], byteOffset = 1\<rparr>
     = Inr (0x0a, \<lparr>buffer = [0x92, 0x0a, 0x0b], byteOffset = 2\<rparr>)"
  "getUint8 \<lparr>buffer = [0x92, 0x0a, 0x0b], byteOffset = 2\<rparr>
     = Inr (0x0b, \<lparr>buffer = [0x92, 0x0a, 0x0b], byteOffset = 3\<rparr>)"
proof -
  let ?r = "\<lambda>k. \<lparr>buffer = [0x92, 0x0a, 0x0b], byteOffset = k\<rparr>"
  have "getUint8 (?r 1) = Inr (0x0a, advance (?r 1) 1)"
    by (rule getUint8_at [where cs = "[0x0b]"]) (simp add: at_cursor_def)
  then show "getUint8 (?r 1) = Inr (0x0a, ?r 2)" by (simp add: advance_def)
  have "getUint8 (?r 2) = Inr (0x0b, advance (?r 2) 1)"
    by (rule getUint8_at [where cs = "[]"]) (simp add: at_cursor_def)
  then show "getUint8 (?r 2) = Inr (0x0b, ?r 3)" by (simp add: advance_def)
qed

text \<open>
  C8. The claim asks of the generic \<open>readArray\<close> that the element decoder is invoked with
  the current index for each element. The \<open>readArray\<close> of the \<open>SafeDecoder\<close> does so, and the
  \<open>readArray\<close> of the facade \<open>Decoder\<close> does not: on the bytes 0x92 0x0a 0x0b (a fixarray
  of two elements) with an element decoder that returns its index and the next byte, the
  \<open>SafeDecoder\<close> returns the indices 0 and 1, and the \<open>Decoder\<close> returns no index for
  either element. Both read the two elements in their order and stop at the end.
\<close>

theorem Decoder_readArray_omits_index:
  "Decoder_readArray (\<lambda>i. bind getUint8 (\<lambda>b. ret (i, b)))
       \<lparr>buffer = [0x92, 0x0a, 0x0b], byteOffset = 0\<rparr>
     = Inr ([(None, 0x0a), (None, 0x0b)], \<lparr>buffer = [0x92, 0x0a, 0x0b], byteOffset = 3\<rparr>)
   \<and> readArray (\<lambda>i. bind getUint8 (\<lambda>b. ret (Ok (i, b))))
       \<lparr>buffer = [0x92, 0x0a, 0x0b], byteOffset = 0\<rparr>
     = Inr (Ok [(Some 0, 0x0a), (Some 1, 0x0b)],
            \<lparr>buffer = [0x92, 0x0a, 0x0b], byteOffset = 3\<rparr>)"
proof -
  let ?r = "\<lambda>k. \<lparr>buffer = [0x92, 0x0a, 0x0b], byteOffset = k\<rparr>"
  let ?f = "\<lambda>i :: u32 option. bind getUint8 (\<lambda>b. ret (i, b))"
  let ?g = "\<lambda>i :: u32 option. bind getUint8 (\<lambda>b. ret (Ok (i, b)))"
  have d2: "Decoder_readArray_loop ?f 2 2 [(None, 0x0a), (None, 0x0b)] (?r 3)
      = Inr ([(None, 0x0a), (None, 0x0b)], ?r 3)"
    by (subst Decoder_readArray_loop.simps) simp
  have d1: "Decoder_readArray_loop ?f 2 1 [(None, 0x0a)] (?r 2)
      = Inr ([(None, 0x0a), (None, 0x0b)], ?r 3)"
    by (subst Decoder_readArray_loop.simps) (simp add: bind_def ret_def element_bytes d2)
  have d0: "Decoder_readArray_loop ?f 2 0 [] (?r 1)
      = Inr ([(None, 0x0a), (None, 0x0b)], ?r 3)"
    by (subst Decoder_readArray_loop.simps) (simp add: bind_def ret_def element_bytes d1)
  have d: "Decoder_readArray ?f (?r 0) = Inr ([(None, 0x0a), (None, 0x0b)], ?r 3)"
    by (simp add: Decoder_readArray_def Decoder_readArraySize_def unwrap_def bind_def ret_def
        readArraySize_two d0 del: Decoder_readArray_loop.simps)
  have s2: "readArray_loop ?g 2 2 [(Some 0, 0x0a), (Some 1, 0x0b)] (?r 3)
      = Inr (Ok [(Some 0, 0x0a), (Some 1, 0x0b)], ?r 3)"
    by (subst readArray_loop.simps) simp
  have s1: "readArray_loop ?g 2 1 [(Some 0, 0x0a)] (?r 2)
      = Inr (Ok [(Some 0, 0x0a), (Some 1, 0x0b)], ?r 3)"
    by (subst readArray_loop.simps) (simp add: bind_def ret_def element_bytes s2)
  have s0: "readArray_loop ?g 2 0 [] (?r 1)
      = Inr (Ok [(Some 0, 0x0a), (Some 1, 0x0b)], ?r 3)"
    by (subst readArray_loop.simps) (simp add: bind_def ret_def element_bytes s1)
  have s: "readArray ?g (?r 0) = Inr (Ok [(Some 0, 0x0a), (Some 1, 0x0b)], ?r 3)"
    by (simp add: readArray_def bind_def ret_def readArraySize_two s0
        del: readArray_loop.simps)
  from d s show ?thesis by simp
qed

section \<open>Values and their children\<close>

lemma encode_own_children: "encode v = own_bytes v @ concat (map encode (children v))"
proof (cases v)
  case (MMap w kvs)
  have "concat (map (\<lambda>(k, v). encode k @ encode v) kvs)
      = concat (map encode (concat (map (\<lambda>(k, v). [k, v]) kvs)))"
    by (induction kvs) auto
  with MMap show ?thesis by simp
qed simp_all

lemma well_formed_children: "well_formed v \<Longrightarrow> c \<in> set (children v) \<Longrightarrow> well_formed c"
  by (cases v) (auto simp add: list_all_iff)

lemma msg_children_induct:
  assumes step: "\<And>v. (\<And>c. c \<in> set (children v) \<Longrightarrow> P c) \<Longrightarrow> P v"
  shows "P v"
proof (induction v)
  case (MArray w xs)
  show ?case by (rule step) (simp add: MArray)
next
  case (MMap w kvs)
  show ?case by (rule step) (auto intro: MMap)
qed (rule step, simp)+

lemma length_str_header:
  "length (str_header w n) = (case w of SFix \<Rightarrow> 1 | S8 \<Rightarrow> 2 | S16 \<Rightarrow> 3 | S32 \<Rightarrow> 5)"
  by (cases w) (simp_all add: length_be_bytes)

lemma length_bin_header:
  "length (bin_header w n) = (case w of B8 \<Rightarrow> 2 | B16 \<Rightarrow> 3 | B32 \<Rightarrow> 5)"
  by (cases w) (simp_all add: length_be_bytes)

lemma length_array_header:
  "length (array_header w n) = (case w of CFix \<Rightarrow> 1 | C16 \<Rightarrow> 3 | C32 \<Rightarrow> 5)"
  by (cases w) (simp_all add: length_be_bytes)

lemma length_map_header:
  "length (map_header w n) = (case w of CFix \<Rightarrow> 1 | C16 \<Rightarrow> 3 | C32 \<Rightarrow> 5)"
  by (cases w) (simp_all add: length_be_bytes)

lemma own_bytes_nonempty: "0 < length (own_bytes v)"
  by (cases v)
    (simp_all add: length_str_header length_bin_header length_array_header
      length_map_header split: strw.splits binw.splits cw.splits)

lemma length_encode:
  "length (encode v) = length (own_bytes v) + length (concat (map encode (children v)))"
  using encode_own_children [of v] by (metis length_append)

lemma encode_nonempty: "0 < length (encode v)"
  using own_bytes_nonempty [of v] by (simp add: length_encode)

lemma children_count_le:
  "length vs \<le> length (concat (map encode vs))"
proof (induction vs)
  case Nil
  then show ?case by simp
next
  case (Cons v vs)
  then show ?case using encode_nonempty [of v] by (simp del: length_greater_0_conv)
qed

section \<open>What getSize does on a value\<close>

lemma sint_u32_small: "n < 2 ^ 31 \<Longrightarrow> sint (word_of_nat n :: u32) = int n"
  by (simp add: sint_u32_of_nat twos_def)

lemma advance_0: "advance r 0 = r"
  by (simp add: advance_def)

lemma discard_after:
  "at_cursor r (hs @ bs @ cs)
    \<Longrightarrow> discard (int (length bs)) (advance r (length hs))
        = Inr ((), advance r (length hs + length bs))"
proof -
  assume "at_cursor r (hs @ bs @ cs)"
  then have "at_cursor (advance r (length hs)) (bs @ cs)" by (rule at_cursor_advance)
  then have "discard (int (length bs)) (advance r (length hs))
      = Inr ((), advance (advance r (length hs)) (length bs))"
    by (rule discard_at)
  then show ?thesis by (simp add: advance_advance)
qed

lemma discard_after_tag:
  "at_cursor r (t # bs @ cs)
    \<Longrightarrow> discard (int (length bs)) (advance r (Suc 0)) = Inr ((), advance r (Suc (length bs)))"
  using discard_after [of r "[t]" bs cs] by simp

lemma length_pairs: "length (concat (map (\<lambda>(k, v). [k, v]) kvs)) = 2 * length kvs"
  by (induction kvs) auto

lemma prefix8_after_tag:
  "at_cursor r (t # be_bytes 1 n @ cs)
    \<Longrightarrow> getUint8 (advance r (Suc 0)) = Inr (word_of_nat n, advance r 2)"
proof -
  assume "at_cursor r (t # be_bytes 1 n @ cs)"
  then have "at_cursor (advance r 1) (be_bytes 1 n @ cs)" by (rule at_cursor_Cons)
  then have "getUint8 (advance r 1) = Inr (word_of_nat n, advance (advance r 1) 1)"
    by (rule getUint8_be)
  then show ?thesis by (simp add: advance_advance advance_eq_iff)
qed

lemma prefix16_after_tag:
  "at_cursor r (t # be_bytes 2 n @ cs) \<Longrightarrow> n < 2 ^ 16
    \<Longrightarrow> getUint16 (advance r (Suc 0)) = Inr (word_of_nat n, advance r 3)"
proof -
  assume "at_cursor r (t # be_bytes 2 n @ cs)" and n: "n < 2 ^ 16"
  then have "at_cursor (advance r 1) (be_bytes 2 n @ cs)" by (intro at_cursor_Cons)
  then have "getUint16 (advance r 1) = Inr (word_of_nat n, advance (advance r 1) 2)"
    using n by (rule getUint16_be)
  then show ?thesis by (simp add: advance_advance advance_eq_iff)
qed

lemma prefix32_after_tag:
  "at_cursor r (t # be_bytes 4 n @ cs) \<Longrightarrow> n < 2 ^ 32
    \<Longrightarrow> getUint32 (advance r (Suc 0)) = Inr (word_of_nat n, advance r 5)"
proof -
  assume "at_cursor r (t # be_bytes 4 n @ cs)" and n: "n < 2 ^ 32"
  then have "at_cursor (advance r 1) (be_bytes 4 n @ cs)" by (intro at_cursor_Cons)
  then have "getUint32 (advance r 1) = Inr (word_of_nat n, advance (advance r 1) 4)"
    using n by (rule getUint32_be)
  then show ?thesis by (simp add: advance_advance advance_eq_iff)
qed

lemma sint_ucast_u8: "n < 2 ^ 8 \<Longrightarrow> sint (ucast (word_of_nat n :: u8) :: u32) = int n"
proof -
  assume n: "n < 2 ^ 8"
  then have "(ucast (word_of_nat n :: u8) :: u32) = word_of_nat n"
    by (intro ucast_of_nat_up) simp_all
  moreover have "n < 2 ^ 31" using n by (rule less_trans) simp
  ultimately show ?thesis by (simp only: sint_u32_small)
qed

lemma sint_ucast_u16: "n < 2 ^ 16 \<Longrightarrow> sint (ucast (word_of_nat n :: u16) :: u32) = int n"
proof -
  assume n: "n < 2 ^ 16"
  then have "(ucast (word_of_nat n :: u16) :: u32) = word_of_nat n"
    by (intro ucast_of_nat_up) simp_all
  moreover have "n < 2 ^ 31" using n by (rule less_trans) simp
  ultimately show ?thesis by (simp only: sint_u32_small)
qed


lemma getSize_str8:
  assumes a: "at_cursor r (STR8 # be_bytes 1 (length bs) @ bs @ cs)"
    and n: "length bs < 2 ^ 8"
  shows "getSize r = Inr (0, advance r (2 + length bs))"
proof -
  from a have g: "getUint8 r = Inr (STR8, advance r 1)" by (rule getUint8_at)
  have p: "getUint8 (advance r (Suc 0)) = Inr (word_of_nat (length bs), advance r 2)"
    using a by (rule prefix8_after_tag)
  have s: "sint (ucast (word_of_nat (length bs) :: u8) :: u32) = int (length bs)"
    using n by (rule sint_ucast_u8)
  have "at_cursor r ((STR8 # be_bytes 1 (length bs)) @ bs @ cs)" using a by simp
  then have "discard (int (length bs)) (advance r (length (STR8 # be_bytes 1 (length bs))))
      = Inr ((), advance r (length (STR8 # be_bytes 1 (length bs)) + length bs))"
    by (rule discard_after)
  then have d: "discard (int (length bs)) (advance r 2)
      = Inr ((), advance r (2 + length bs))"
    by (simp add: length_be_bytes advance_def)
  show ?thesis
    using g p s d by (simp add: getSize_def bind_def ret_def tag_tests advance_def)
qed

lemma getSize_bin8:
  assumes a: "at_cursor r (BIN8 # be_bytes 1 (length bs) @ bs @ cs)"
    and n: "length bs < 2 ^ 8"
  shows "getSize r = Inr (0, advance r (2 + length bs))"
proof -
  from a have g: "getUint8 r = Inr (BIN8, advance r 1)" by (rule getUint8_at)
  have p: "getUint8 (advance r (Suc 0)) = Inr (word_of_nat (length bs), advance r 2)"
    using a by (rule prefix8_after_tag)
  have s: "sint (ucast (word_of_nat (length bs) :: u8) :: u32) = int (length bs)"
    using n by (rule sint_ucast_u8)
  have "at_cursor r ((BIN8 # be_bytes 1 (length bs)) @ bs @ cs)" using a by simp
  then have "discard (int (length bs)) (advance r (length (BIN8 # be_bytes 1 (length bs))))
      = Inr ((), advance r (length (BIN8 # be_bytes 1 (length bs)) + length bs))"
    by (rule discard_after)
  then have d: "discard (int (length bs)) (advance r 2)
      = Inr ((), advance r (2 + length bs))"
    by (simp add: length_be_bytes advance_def)
  show ?thesis
    using g p s d by (simp add: getSize_def bind_def ret_def tag_tests advance_def)
qed

lemma getSize_str16:
  assumes a: "at_cursor r (STR16 # be_bytes 2 (length bs) @ bs @ cs)"
    and n: "length bs < 2 ^ 16"
  shows "getSize r = Inr (0, advance r (3 + length bs))"
proof -
  from a have g: "getUint8 r = Inr (STR16, advance r 1)" by (rule getUint8_at)
  have p: "getUint16 (advance r (Suc 0)) = Inr (word_of_nat (length bs), advance r 3)"
    using a _ by (rule prefix16_after_tag) (use n in simp)
  have s: "sint (ucast (word_of_nat (length bs) :: u16) :: u32) = int (length bs)"
    using n by (rule sint_ucast_u16)
  have "at_cursor r ((STR16 # be_bytes 2 (length bs)) @ bs @ cs)" using a by simp
  then have "discard (int (length bs)) (advance r (length (STR16 # be_bytes 2 (length bs))))
      = Inr ((), advance r (length (STR16 # be_bytes 2 (length bs)) + length bs))"
    by (rule discard_after)
  then have d: "discard (int (length bs)) (advance r 3)
      = Inr ((), advance r (3 + length bs))"
    by (simp add: length_be_bytes advance_def)
  show ?thesis
    using g p s d by (simp add: getSize_def bind_def ret_def tag_tests advance_def)
qed

lemma getSize_bin16:
  assumes a: "at_cursor r (BIN16 # be_bytes 2 (length bs) @ bs @ cs)"
    and n: "length bs < 2 ^ 16"
  shows "getSize r = Inr (0, advance r (3 + length bs))"
proof -
  from a have g: "getUint8 r = Inr (BIN16, advance r 1)" by (rule getUint8_at)
  have p: "getUint16 (advance r (Suc 0)) = Inr (word_of_nat (length bs), advance r 3)"
    using a _ by (rule prefix16_after_tag) (use n in simp)
  have s: "sint (ucast (word_of_nat (length bs) :: u16) :: u32) = int (length bs)"
    using n by (rule sint_ucast_u16)
  have "at_cursor r ((BIN16 # be_bytes 2 (length bs)) @ bs @ cs)" using a by simp
  then have "discard (int (length bs)) (advance r (length (BIN16 # be_bytes 2 (length bs))))
      = Inr ((), advance r (length (BIN16 # be_bytes 2 (length bs)) + length bs))"
    by (rule discard_after)
  then have d: "discard (int (length bs)) (advance r 3)
      = Inr ((), advance r (3 + length bs))"
    by (simp add: length_be_bytes advance_def)
  show ?thesis
    using g p s d by (simp add: getSize_def bind_def ret_def tag_tests advance_def)
qed

lemma getSize_str32:
  assumes a: "at_cursor r (STR32 # be_bytes 4 (length bs) @ bs @ cs)"
    and n: "length bs < 2 ^ 31"
  shows "getSize r = Inr (0, advance r (5 + length bs))"
proof -
  from a have g: "getUint8 r = Inr (STR32, advance r 1)" by (rule getUint8_at)
  have p: "getUint32 (advance r (Suc 0)) = Inr (word_of_nat (length bs), advance r 5)"
    using a _ by (rule prefix32_after_tag) (use n in simp)
  have s: "sint (word_of_nat (length bs) :: u32) = int (length bs)"
    using n by (rule sint_u32_small)
  have "at_cursor r ((STR32 # be_bytes 4 (length bs)) @ bs @ cs)" using a by simp
  then have "discard (int (length bs)) (advance r (length (STR32 # be_bytes 4 (length bs))))
      = Inr ((), advance r (length (STR32 # be_bytes 4 (length bs)) + length bs))"
    by (rule discard_after)
  then have d: "discard (int (length bs)) (advance r 5)
      = Inr ((), advance r (5 + length bs))"
    by (simp add: length_be_bytes advance_def)
  show ?thesis
    using g p s d by (simp add: getSize_def bind_def ret_def tag_tests advance_def)
qed

lemma getSize_bin32:
  assumes a: "at_cursor r (BIN32 # be_bytes 4 (length bs) @ bs @ cs)"
    and n: "length bs < 2 ^ 31"
  shows "getSize r = Inr (0, advance r (5 + length bs))"
proof -
  from a have g: "getUint8 r = Inr (BIN32, advance r 1)" by (rule getUint8_at)
  have p: "getUint32 (advance r (Suc 0)) = Inr (word_of_nat (length bs), advance r 5)"
    using a _ by (rule prefix32_after_tag) (use n in simp)
  have s: "sint (word_of_nat (length bs) :: u32) = int (length bs)"
    using n by (rule sint_u32_small)
  have "at_cursor r ((BIN32 # be_bytes 4 (length bs)) @ bs @ cs)" using a by simp
  then have "discard (int (length bs)) (advance r (length (BIN32 # be_bytes 4 (length bs))))
      = Inr ((), advance r (length (BIN32 # be_bytes 4 (length bs)) + length bs))"
    by (rule discard_after)
  then have d: "discard (int (length bs)) (advance r 5)
      = Inr ((), advance r (5 + length bs))"
    by (simp add: length_be_bytes advance_def)
  show ?thesis
    using g p s d by (simp add: getSize_def bind_def ret_def tag_tests advance_def)
qed



lemma getSize_scalar_tag:
  assumes g: "getUint8 r = Inr (t, advance r 1)"
    and t: "isNegativeFixedInt t \<or> isFixedInt t \<or> t = NIL \<or> t = TRUE \<or> t = FALSE"
  shows "getSize r = Inr (0, advance r 1)"
proof -
  consider "isNegativeFixedInt t" | "\<not> isNegativeFixedInt t" "isFixedInt t"
    | "t = NIL" | "t = TRUE" | "t = FALSE"
    using t by blast
  then show ?thesis
  proof cases
    case 1
    then show ?thesis using g by (simp add: getSize_def bind_def ret_def)
  next
    case 2
    then show ?thesis using g by (simp add: getSize_def bind_def ret_def)
  next
    case 3
    then show ?thesis using g by (simp add: getSize_def bind_def ret_def tag_tests)
  next
    case 4
    then show ?thesis using g by (simp add: getSize_def bind_def ret_def tag_tests)
  next
    case 5
    then show ?thesis using g by (simp add: getSize_def bind_def ret_def tag_tests)
  qed
qed



lemma getSize_fixed_payload:
  assumes a: "at_cursor r (t # bs @ cs)"
    and t: "(t = FLOAT32 \<or> t = UINT32 \<or> t = INT32) \<and> length bs = 4
        \<or> (t = FLOAT64 \<or> t = UINT64 \<or> t = INT64) \<and> length bs = 8
        \<or> (t = UINT8 \<or> t = INT8) \<and> length bs = 1
        \<or> (t = UINT16 \<or> t = INT16 \<or> t = FIXEXT1) \<and> length bs = 2
        \<or> t = FIXEXT2 \<and> length bs = 3
        \<or> t = FIXEXT4 \<and> length bs = 5
        \<or> t = FIXEXT8 \<and> length bs = 9
        \<or> t = FIXEXT16 \<and> length bs = 17"
  shows "getSize r = Inr (0, advance r (1 + length bs))"
proof -
  from a have g: "getUint8 r = Inr (t, advance r 1)" by (rule getUint8_at)
  from a have d: "discard (int (length bs)) (advance r (Suc 0))
      = Inr ((), advance r (Suc (length bs)))"
    by (rule discard_after_tag)
  from t show ?thesis
    using g d
    by (elim disjE conjE) (simp_all add: getSize_def bind_def ret_def tag_tests advance_def)
qed




lemma getSize_fixstr:
  assumes a: "at_cursor r ((FIXSTR OR word_of_nat (length bs)) # bs @ cs)"
    and n: "length bs < 32"
  shows "getSize r = Inr (0, advance r (1 + length bs))"
proof -
  let ?b = "FIXSTR OR word_of_nat (length bs)"
  from n have u: "unat ?b = 160 + length bs" by (rule unat_fixstr_tag)
  from a have g: "getUint8 r = Inr (?b, advance r 1)" by (rule getUint8_at)
  have f: "\<not> isNegativeFixedInt ?b" "\<not> isFixedInt ?b" "isFixedString ?b"
    using n by (simp_all add: isNegativeFixedInt_unat isFixedInt_unat isFixedString_unat u)
  have "(ucast (?b AND 0x1f) :: u32) = word_of_nat (length bs)"
    using u n by (intro low5_of_tag [of _ 160]) simp_all
  moreover have "length bs < 2 ^ 31" using n by simp
  ultimately have s: "sint (ucast (?b AND 0x1f) :: u32) = int (length bs)"
    by (simp only: sint_u32_small)
  from a have d: "discard (int (length bs)) (advance r (Suc 0))
      = Inr ((), advance r (Suc (length bs)))"
    by (rule discard_after_tag)
  show ?thesis
    using g d by (simp add: getSize_def bind_def ret_def f s advance_def)
qed

lemma getSize_array_header:
  assumes a: "at_cursor r (array_header w n @ cs)" and n: "n < cw_limit w"
  shows "getSize r = Inr (word_of_nat n, advance r (length (array_header w n)))"
proof (cases w)
  case CFix
  let ?b = "FIXARRAY OR word_of_nat n"
  from n CFix have n': "n < 16" by simp
  then have u: "unat ?b = 144 + n" by (rule unat_fixarray_tag)
  from a CFix have g: "getUint8 r = Inr (?b, advance r 1)"
    using getUint8_at [of r ?b cs] by simp
  have f: "\<not> isNegativeFixedInt ?b" "\<not> isFixedInt ?b" "\<not> isFixedString ?b"
    "isFixedArray ?b"
    using n' by (simp_all add: isNegativeFixedInt_unat isFixedInt_unat isFixedString_unat
        isFixedArray_unat u)
  have c: "(ucast (?b AND 0x0f) :: u32) = word_of_nat n"
    using u n' by (intro low4_of_tag [of _ 144]) simp_all
  show ?thesis
    using g CFix
    by (simp add: getSize_def bind_def ret_def f c FOUR_LEAST_SIG_BITS_IN_BYTE_def)
next
  case C16
  from n C16 have n': "n < 2 ^ 16" by simp
  from a C16 have a': "at_cursor r (ARRAY16 # be_bytes 2 n @ cs)" by simp
  from a' have g: "getUint8 r = Inr (ARRAY16, advance r 1)" by (rule getUint8_at)
  from a' n' have p: "getUint16 (advance r (Suc 0)) = Inr (word_of_nat n, advance r 3)"
    by (rule prefix16_after_tag)
  have c: "(ucast (word_of_nat n :: u16) :: u32) = word_of_nat n"
    using n' by (intro ucast_of_nat_up) simp_all
  show ?thesis
    using g p C16
    by (simp add: getSize_def bind_def ret_def c tag_tests advance_def length_be_bytes)
next
  case C32
  from n C32 have n': "n < 2 ^ 32" by simp
  from a C32 have a': "at_cursor r (ARRAY32 # be_bytes 4 n @ cs)" by simp
  then have "getSize r = Inr (word_of_nat n, advance r 5)"
    using n' by (rule getSize_array32)
  then show ?thesis using C32 by (simp add: length_be_bytes)
qed

lemma getSize_map_header:
  assumes a: "at_cursor r (map_header w n @ cs)" and n: "n < cw_limit w"
  shows "getSize r = Inr (word_of_nat (2 * n), advance r (length (map_header w n)))"
proof (cases w)
  case CFix
  let ?b = "FIXMAP OR word_of_nat n"
  from n CFix have n': "n < 16" by simp
  then have u: "unat ?b = 128 + n" by (rule unat_fixmap_tag)
  from a CFix have g: "getUint8 r = Inr (?b, advance r 1)"
    using getUint8_at [of r ?b cs] by simp
  have f: "\<not> isNegativeFixedInt ?b" "\<not> isFixedInt ?b" "\<not> isFixedString ?b"
    "\<not> isFixedArray ?b" "isFixedMap ?b"
    using n' by (simp_all add: isNegativeFixedInt_unat isFixedInt_unat isFixedString_unat
        isFixedArray_unat isFixedMap_unat u)
  have c: "(ucast (?b AND 0x0f) :: u32) = word_of_nat n"
    using u n' by (intro low4_of_tag [of _ 128]) simp_all
  show ?thesis
    using g CFix
    by (simp add: getSize_def bind_def ret_def f c FOUR_LEAST_SIG_BITS_IN_BYTE_def)
next
  case C16
  from n C16 have n': "n < 2 ^ 16" by simp
  from a C16 have a': "at_cursor r (MAP16 # be_bytes 2 n @ cs)" by simp
  from a' have g: "getUint8 r = Inr (MAP16, advance r 1)" by (rule getUint8_at)
  from a' n' have p: "getUint16 (advance r (Suc 0)) = Inr (word_of_nat n, advance r 3)"
    by (rule prefix16_after_tag)
  have c: "(ucast (word_of_nat n :: u16) :: u32) = word_of_nat n"
    using n' by (intro ucast_of_nat_up) simp_all
  show ?thesis
    using g p C16
    by (simp add: getSize_def bind_def ret_def c tag_tests advance_def length_be_bytes)
next
  case C32
  from n C32 have n': "n < 2 ^ 32" by simp
  from a C32 have a': "at_cursor r (MAP32 # be_bytes 4 n @ cs)" by simp
  then have "getSize r = Inr (2 * word_of_nat n, advance r 5)"
    using n' by (rule getSize_map32)
  then show ?thesis using C32 by (simp add: length_be_bytes)
qed

lemma getSize_own:
  assumes w: "well_formed v" and a: "at_cursor r (own_bytes v @ cs)"
    and small: "length (encode v) < 2 ^ 31"
  shows "getSize r
      = Inr (word_of_nat (length (children v)), advance r (length (own_bytes v)))"
proof (cases v)
  case MNil
  with a have "getUint8 r = Inr (NIL, advance r 1)" using getUint8_at [of r NIL cs] by simp
  then have "getSize r = Inr (0, advance r 1)" by (rule getSize_scalar_tag) simp
  with MNil show ?thesis by simp
next
  case (MBool b)
  let ?t = "if b then TRUE else FALSE"
  from a MBool have "getUint8 r = Inr (?t, advance r 1)"
    using getUint8_at [of r ?t cs] by simp
  then have "getSize r = Inr (0, advance r 1)" by (rule getSize_scalar_tag) simp
  with MBool show ?thesis by simp
next
  case (MPosFixInt x)
  with a have g: "getUint8 r = Inr (x, advance r 1)" using getUint8_at [of r x cs] by simp
  from w MPosFixInt have "isFixedInt x"
    by (simp add: isFixedInt_unat word_le_nat_alt)
  then have "isNegativeFixedInt x \<or> isFixedInt x \<or> x = NIL \<or> x = TRUE \<or> x = FALSE"
    by blast
  with g have "getSize r = Inr (0, advance r 1)" by (rule getSize_scalar_tag)
  with MPosFixInt show ?thesis by simp
next
  case (MNegFixInt x)
  with a have g: "getUint8 r = Inr (x, advance r 1)" using getUint8_at [of r x cs] by simp
  from w MNegFixInt have "isNegativeFixedInt x"
    by (simp add: isNegativeFixedInt_unat word_le_nat_alt)
  then have "isNegativeFixedInt x \<or> isFixedInt x \<or> x = NIL \<or> x = TRUE \<or> x = FALSE"
    by blast
  with g have "getSize r = Inr (0, advance r 1)" by (rule getSize_scalar_tag)
  with MNegFixInt show ?thesis by simp
next
  case (MNum k bs)
  from a MNum have a': "at_cursor r (num_tag k # bs @ cs)" by simp
  from w MNum have l: "length bs = num_width k" by simp
  have "getSize r = Inr (0, advance r (1 + length bs))"
    using a' by (rule getSize_fixed_payload) (use l in \<open>cases k; simp\<close>)
  with MNum show ?thesis by simp
next
  case (MStr sw bs)
  from w MStr have l: "length bs < str_limit sw" by simp
  from small MStr have s: "length bs < 2 ^ 31" by simp
  show ?thesis
  proof (cases sw)
    case SFix
    with a MStr l have "getSize r = Inr (0, advance r (1 + length bs))"
      by (intro getSize_fixstr) simp_all
    with MStr SFix show ?thesis by simp
  next
    case S8
    with a MStr l have "getSize r = Inr (0, advance r (2 + length bs))"
      by (intro getSize_str8) simp_all
    with MStr S8 show ?thesis by (simp add: advance_eq_iff)
  next
    case S16
    with a MStr l have "getSize r = Inr (0, advance r (3 + length bs))"
      by (intro getSize_str16) simp_all
    with MStr S16 show ?thesis by (simp add: advance_eq_iff length_be_bytes)
  next
    case S32
    with a MStr s have "getSize r = Inr (0, advance r (5 + length bs))"
      by (intro getSize_str32) simp_all
    with MStr S32 show ?thesis by (simp add: advance_eq_iff length_be_bytes)
  qed
next
  case (MBin bw bs)
  from w MBin have l: "length bs < bin_limit bw" by simp
  from small MBin have s: "length bs < 2 ^ 31" by simp
  show ?thesis
  proof (cases bw)
    case B8
    with a MBin l have "getSize r = Inr (0, advance r (2 + length bs))"
      by (intro getSize_bin8) simp_all
    with MBin B8 show ?thesis by (simp add: advance_eq_iff)
  next
    case B16
    with a MBin l have "getSize r = Inr (0, advance r (3 + length bs))"
      by (intro getSize_bin16) simp_all
    with MBin B16 show ?thesis by (simp add: advance_eq_iff length_be_bytes)
  next
    case B32
    with a MBin s have "getSize r = Inr (0, advance r (5 + length bs))"
      by (intro getSize_bin32) simp_all
    with MBin B32 show ?thesis by (simp add: advance_eq_iff length_be_bytes)
  qed
next
  case (MFixExt ew t bs)
  from a MFixExt have a': "at_cursor r (ext_tag ew # (t # bs) @ cs)" by simp
  from w MFixExt have l: "length bs = ext_width ew" by simp
  have "getSize r = Inr (0, advance r (1 + length (t # bs)))"
    using a' by (rule getSize_fixed_payload) (use l in \<open>cases ew; simp\<close>)
  with MFixExt show ?thesis by simp
next
  case (MArray aw xs)
  with a w have "getSize r
      = Inr (word_of_nat (length xs), advance r (length (array_header aw (length xs))))"
    by (intro getSize_array_header) simp_all
  with MArray show ?thesis by simp
next
  case (MMap mw kvs)
  with a w have "getSize r
      = Inr (word_of_nat (2 * length kvs), advance r (length (map_header mw (length kvs))))"
    by (intro getSize_map_header) simp_all
  with MMap show ?thesis by (simp add: length_pairs)
qed

section \<open>Skip\<close>

lemma at_cursor_small:
  "resident r \<Longrightarrow> at_cursor r bs \<Longrightarrow> length bs < 2 ^ 31"
proof -
  assume r: "resident r" and a: "at_cursor r bs"
  from a have "int (length bs) \<le> remaining r" by (rule at_cursor_length)
  moreover from a have "0 \<le> byteOffset r" by (simp add: at_cursor_def)
  ultimately have "length bs \<le> length (buffer r)" by (simp add: remaining_def)
  with r show ?thesis by (simp add: resident_def)
qed

lemma skip_loop_done: "\<not> 0 < sint n \<Longrightarrow> skip_loop (Suc fuel) n r = Some (Inr ((), r))"
  by simp

lemma skip_loop_step:
  "0 < sint n \<Longrightarrow> skip fuel r = Some (Inr ((), r'))
    \<Longrightarrow> skip_loop (Suc fuel) n r = skip_loop fuel (n - 1) r'"
  by simp

lemma skip_step:
  "getSize r = Inr (n, r') \<Longrightarrow> skip (Suc fuel) r = skip_loop fuel n r'"
  by simp

lemma skip_loop_list:
  assumes P: "\<And>c r fuel cs. c \<in> set vs \<Longrightarrow> resident r \<Longrightarrow> at_cursor r (encode c @ cs)
      \<Longrightarrow> 2 * length (encode c) \<le> fuel
      \<Longrightarrow> skip fuel r = Some (Inr ((), advance r (length (encode c))))"
    and r: "resident r" and a: "at_cursor r (concat (map encode vs) @ cs)"
    and f: "1 + 2 * length (concat (map encode vs)) \<le> fuel"
  shows "skip_loop fuel (word_of_nat (length vs)) r
      = Some (Inr ((), advance r (length (concat (map encode vs)))))"
  using P r a f
proof (induction vs arbitrary: r fuel)
  case Nil
  from Nil.prems(4) obtain k where k: "fuel = Suc k" by (cases fuel) simp_all
  show ?case unfolding k by (simp add: advance_0)
next
  case (Cons v vs)
  let ?L = "length (concat (map encode vs))"
  from Cons.prems(4) obtain k where k: "fuel = Suc k" by (cases fuel) simp_all
  from Cons.prems(3) have a1: "at_cursor r (encode v @ concat (map encode vs) @ cs)"
    by simp
  from Cons.prems(3) have "at_cursor r (concat (map encode (v # vs)))"
    by (rule at_cursor_prefix)
  with Cons.prems(2) have "length (concat (map encode (v # vs))) < 2 ^ 31"
    by (rule at_cursor_small)
  moreover have "length (v # vs) \<le> length (concat (map encode (v # vs)))"
    by (rule children_count_le)
  ultimately have n: "Suc (length vs) < 2 ^ 31" by simp
  then have "sint (word_of_nat (Suc (length vs)) :: u32) = int (Suc (length vs))"
    by (rule sint_u32_small)
  then have pos: "0 < sint (word_of_nat (Suc (length vs)) :: u32)" by simp
  have e: "0 < length (encode v)" by (rule encode_nonempty)
  from Cons.prems(4) k have f1: "2 * length (encode v) \<le> k" by simp
  have s1: "skip k r = Some (Inr ((), advance r (length (encode v))))"
    by (rule Cons.prems(1) [OF _ Cons.prems(2) a1 f1]) simp
  have m: "(word_of_nat (Suc (length vs)) :: u32) - 1 = word_of_nat (length vs)" by simp
  from a1 have a2: "at_cursor (advance r (length (encode v))) (concat (map encode vs) @ cs)"
    by (rule at_cursor_advance)
  from Cons.prems(4) k e have f2: "1 + 2 * ?L \<le> k"
    by (simp del: length_greater_0_conv)
  have r2: "resident (advance r (length (encode v)))"
    using Cons.prems(2) by (simp add: resident_advance)
  have "skip_loop k (word_of_nat (length vs)) (advance r (length (encode v)))
      = Some (Inr ((), advance (advance r (length (encode v))) ?L))"
    by (rule Cons.IH [OF _ r2 a2 f2]) (rule Cons.prems(1), simp_all)
  moreover have "skip_loop (Suc k) (word_of_nat (Suc (length vs))) r
      = skip_loop k (word_of_nat (Suc (length vs)) - 1) (advance r (length (encode v)))"
    using pos s1 by (rule skip_loop_step)
  ultimately show ?case
    unfolding k by (simp only: m advance_advance list.map concat.simps length_append length_Cons)
qed

lemma skip_value:
  "well_formed v \<Longrightarrow> resident r \<Longrightarrow> at_cursor r (encode v @ cs)
    \<Longrightarrow> 2 * length (encode v) \<le> fuel
    \<Longrightarrow> skip fuel r = Some (Inr ((), advance r (length (encode v))))"
proof (induction v arbitrary: r fuel cs rule: msg_children_induct)
  case (1 v)
  let ?own = "own_bytes v"
  let ?kids = "concat (map encode (children v))"
  have enc: "encode v = ?own @ ?kids" by (rule encode_own_children)
  from "1.prems"(3) have "at_cursor r (encode v)" by (rule at_cursor_prefix)
  with "1.prems"(2) have small: "length (encode v) < 2 ^ 31" by (rule at_cursor_small)
  from "1.prems"(3) have a1: "at_cursor r (?own @ ?kids @ cs)" by (simp add: enc)
  have g: "getSize r = Inr (word_of_nat (length (children v)), advance r (length ?own))"
    using "1.prems"(1) a1 small by (rule getSize_own)
  have o: "0 < length ?own" by (rule own_bytes_nonempty)
  have len: "length (encode v) = length ?own + length ?kids" by (rule length_encode)
  from "1.prems"(4) o len obtain k where k: "fuel = Suc k" by (cases fuel) simp_all
  from "1.prems"(4) o len k have f: "1 + 2 * length ?kids \<le> k"
    by (simp del: length_greater_0_conv)
  from a1 have a2: "at_cursor (advance r (length ?own)) (?kids @ cs)"
    by (rule at_cursor_advance)
  have r2: "resident (advance r (length ?own))"
    using "1.prems"(2) by (simp add: resident_advance)
  have "skip_loop k (word_of_nat (length (children v))) (advance r (length ?own))
      = Some (Inr ((), advance (advance r (length ?own)) (length ?kids)))"
  proof (rule skip_loop_list [OF _ r2 a2 f])
    fix c r' fuel' cs'
    assume c: "c \<in> set (children v)" and "resident r'" and "at_cursor r' (encode c @ cs')"
      and "2 * length (encode c) \<le> fuel'"
    moreover from "1.prems"(1) c have "well_formed c" by (rule well_formed_children)
    ultimately show "skip fuel' r' = Some (Inr ((), advance r' (length (encode c))))"
      by (intro "1.IH")
  qed
  moreover have "skip (Suc k) r
      = skip_loop k (word_of_nat (length (children v))) (advance r (length ?own))"
    using g by (rule skip_step)
  ultimately show ?case unfolding k by (simp only: advance_advance len)
qed

text \<open>
  C1. For a well-formed encoded value at the cursor, in a buffer whose length is an \<open>i32\<close>:
  \<open>skip\<close> returns, once it is allowed twice as many steps as the value has bytes, and
  leaves the cursor exactly behind the value, whatever the nesting of arrays and maps and
  whatever the form (among them the fixext forms, whose tag is followed by a type byte and
  1, 2, 4, 8 or 16 data bytes, and the three widths of bin, str, array and map).
  \<open>getSize\<close> consumes the bytes that are the value's own and returns the number of its
  children as a non-negative \<open>i32\<close>: the number of elements of an array, twice the number of
  pairs of a map, and 0 for any other value.
\<close>

theorem skip_advances_past_value:
  assumes "well_formed v" and "resident r" and "at_cursor r (encode v)"
  shows "(2 * length (encode v) \<le> fuel \<longrightarrow>
            skip fuel r = Some (Inr ((), advance r (length (encode v)))))
       \<and> getSize r = Inr (word_of_nat (length (children v)), advance r (length (own_bytes v)))
       \<and> sint (word_of_nat (length (children v)) :: u32) = int (length (children v))
       \<and> length (children v)
           = (case v of MArray w xs \<Rightarrow> length xs | MMap w kvs \<Rightarrow> 2 * length kvs | _ \<Rightarrow> 0)"
proof -
  from assms(3) have a: "at_cursor r (encode v @ [])" by simp
  have s: "skip fuel r = Some (Inr ((), advance r (length (encode v))))"
    if "2 * length (encode v) \<le> fuel"
    using assms(1) assms(2) a that by (rule skip_value)
  from assms(2) assms(3) have small: "length (encode v) < 2 ^ 31" by (rule at_cursor_small)
  have "at_cursor r (own_bytes v @ concat (map encode (children v)))"
    using assms(3) by (simp add: encode_own_children [symmetric])
  with assms(1) have g: "getSize r
      = Inr (word_of_nat (length (children v)), advance r (length (own_bytes v)))"
    using small by (rule getSize_own)
  have "length (children v) \<le> length (concat (map encode (children v)))"
    by (rule children_count_le)
  also have "\<dots> \<le> length (encode v)" by (simp add: length_encode)
  finally have "length (children v) < 2 ^ 31" using small by simp
  then have c: "sint (word_of_nat (length (children v)) :: u32) = int (length (children v))"
    by (rule sint_u32_small)
  have n: "length (children v)
      = (case v of MArray w xs \<Rightarrow> length xs | MMap w kvs \<Rightarrow> 2 * length kvs | _ \<Rightarrow> 0)"
    by (cases v) (simp_all add: length_pairs)
  from s g c n show ?thesis by blast
qed

theorem skip_advances_past_value_witness:
  "skip 22 \<lparr>buffer = [0x91, 0x91, 0x91, 0x91, 0x91, 0x91, 0x91, 0x91, 0x91, 0x91, 0xc0],
            byteOffset = 0\<rparr>
     = Some (Inr ((), \<lparr>buffer = [0x91, 0x91, 0x91, 0x91, 0x91, 0x91, 0x91, 0x91, 0x91, 0x91,
                                  0xc0],
                        byteOffset = 11\<rparr>))
   \<and> skip 14 \<lparr>buffer = [0xde, 0x00, 0x02, 0x01, 0x90, 0x02, 0x90], byteOffset = 0\<rparr>
     = Some (Inr ((), \<lparr>buffer = [0xde, 0x00, 0x02, 0x01, 0x90, 0x02, 0x90], byteOffset = 7\<rparr>))
   \<and> getSize \<lparr>buffer = [0xde, 0x00, 0x02, 0x01, 0x90, 0x02, 0x90], byteOffset = 0\<rparr>
     = Inr (4, \<lparr>buffer = [0xde, 0x00, 0x02, 0x01, 0x90, 0x02, 0x90], byteOffset = 3\<rparr>)
   \<and> skip 12 \<lparr>buffer = [0xd6, 0x05, 0x01, 0x02, 0x03, 0x04], byteOffset = 0\<rparr>
     = Some (Inr ((), \<lparr>buffer = [0xd6, 0x05, 0x01, 0x02, 0x03, 0x04], byteOffset = 6\<rparr>))"
proof -
  let ?one = "\<lambda>x. MArray CFix [x]"
  let ?deep = "?one (?one (?one (?one (?one (?one (?one (?one (?one (?one MNil)))))))))"
  let ?map = "MMap C16 [(MPosFixInt 1, MArray CFix []), (MPosFixInt 2, MArray CFix [])]"
  let ?ext = "MFixExt E4 0x05 [0x01, 0x02, 0x03, 0x04]"
  let ?r1 = "\<lparr>buffer = [0x91, 0x91, 0x91, 0x91, 0x91, 0x91, 0x91, 0x91, 0x91, 0x91, 0xc0],
              byteOffset = 0\<rparr>"
  let ?r2 = "\<lparr>buffer = [0xde, 0x00, 0x02, 0x01, 0x90, 0x02, 0x90], byteOffset = 0\<rparr>"
  let ?r3 = "\<lparr>buffer = [0xd6, 0x05, 0x01, 0x02, 0x03, 0x04], byteOffset = 0\<rparr>"
  have e1: "encode ?deep = buffer ?r1" by (simp add: Format_defs)
  have e2: "encode ?map = buffer ?r2" by (simp add: Format_defs be_bytes_2)
  have e3: "encode ?ext = buffer ?r3" by (simp add: Format_defs)
  have w: "well_formed ?deep" "well_formed ?map" "well_formed ?ext" by simp_all
  have r: "resident ?r1" "resident ?r2" "resident ?r3" by (simp_all add: resident_def)
  have a: "at_cursor ?r1 (encode ?deep)" "at_cursor ?r2 (encode ?map)"
    "at_cursor ?r3 (encode ?ext)"
    unfolding e1 e2 e3 by (simp_all add: at_cursor_def)
  show ?thesis
    using skip_advances_past_value [OF w(1) r(1) a(1), of 22]
      skip_advances_past_value [OF w(2) r(2) a(2), of 14]
      skip_advances_past_value [OF w(3) r(3) a(3), of 12]
    unfolding e1 e2 e3 by (simp add: advance_def be_bytes_2)
qed

section \<open>Every reader rejects the tags it does not accept\<close>

lemma readBool_rejects:
  assumes "at_cursor r (t # cs)" and "\<not> bool_tag t"
  shows "readBool r = Inr (Err (BadValueForBool t), advance r 1)"
  using getUint8_at [OF assms(1)] assms(2)
  by (simp add: readBool_def bind_def ret_def bool_tag_def TRUE_def FALSE_def)

lemma readUInt64_rejects:
  assumes "at_cursor r (t # cs)" and "\<not> uint_tag t"
  shows "readUInt64 r = Inr (Err (BadPrefixForUnsignedInt t), advance r 1)"
proof (cases "int_tag t")
  case True
  with assms(2) have "0xe0 \<le> t" by (auto simp add: int_tag_def uint_tag_def)
  with assms(1) show ?thesis by (rule readUInt64_negfixint)
next
  case False
  with assms(1) show ?thesis by (rule readUInt64_other)
qed

lemma narrow_int_rejects:
  assumes "readInt64 r = Inr (Err e, r')"
  shows "readInt8 r = Inr (Err e, r')" and "readInt16 r = Inr (Err e, r')"
    and "readInt32 r = Inr (Err e, r')"
  using assms by (simp_all add: readInt8_def readInt16_def readInt32_def bind_def ret_def)

lemma narrow_uint_rejects:
  assumes "readUInt64 r = Inr (Err e, r')"
  shows "readUInt8 r = Inr (Err e, r')" and "readUInt16 r = Inr (Err e, r')"
    and "readUInt32 r = Inr (Err e, r')"
  using assms by (simp_all add: readUInt8_def readUInt16_def readUInt32_def bind_def ret_def)

lemma readFloat_rejects:
  assumes "at_cursor r (t # cs)" and "\<not> float_tag t"
  shows "readFloat32 narrow r = Inr (Err (BadPrefixForFloat t), advance r 1)"
    and "readFloat64 widen r = Inr (Err (BadPrefixForFloat t), advance r 1)"
  using getUint8_at [OF assms(1)] assms(2)
  by (simp_all add: readFloat32_def readFloat64_def bind_def ret_def float_tag_def
      isFloat32_def isFloat64_def FLOAT32_def FLOAT64_def)

lemma readStringLength_rejects:
  assumes a: "at_cursor r (t # cs)" and t: "\<not> string_length_tag t"
  shows "readStringLength r = Inr (Err (InvalidLengthPrefix t), advance r 1)"
proof -
  from a have g: "getUint8 r = Inr (t, advance r 1)" by (rule getUint8_at)
  from t have u: "unat t < 144 \<or> 191 < unat t" "unat t < 217 \<or> 219 < unat t"
    by (auto simp add: string_length_tag_def word_le_nat_alt)
  then have f: "\<not> isFixedString t" "\<not> isFixedArray t"
    by (auto simp add: isFixedString_unat isFixedArray_unat)
  from u have ne: "t \<noteq> STR8" "t \<noteq> STR16" "t \<noteq> STR32"
    by (auto simp add: Format_defs)
  show ?thesis by (simp add: readStringLength_def bind_def ret_def g f ne)
qed

lemma readString_rejects:
  "at_cursor r (t # cs) \<Longrightarrow> \<not> string_length_tag t
    \<Longrightarrow> readString utf8 r = Inr (Err (InvalidLengthPrefix t), advance r 1)"
  using readStringLength_rejects [of r t cs]
  by (simp add: readString_def bind_def ret_def)

lemma readBinLength_rejects:
  assumes a: "at_cursor r (t # cs)" and t: "\<not> bin_length_tag t"
  shows "readBinLength r = Inr (Err (InvalidLengthPrefix t), advance r 1)"
proof -
  from a have g: "getUint8 r = Inr (t, advance r 1)" by (rule getUint8_at)
  from t have "unat t < 144 \<or> 159 < unat t"
    by (auto simp add: bin_length_tag_def word_le_nat_alt)
  then have f: "\<not> isFixedArray t" by (auto simp add: isFixedArray_unat)
  from t have ne: "t \<noteq> NIL" "t \<noteq> BIN8" "t \<noteq> BIN16" "t \<noteq> BIN32"
    by (auto simp add: bin_length_tag_def Format_defs)
  from a ne(1) have n: "isNextNil r = Inr (False, r)" by (rule isNextNil_other)
  show ?thesis by (simp add: readBinLength_def bind_def ret_def n g f ne)
qed

lemma readByteArray_rejects:
  "at_cursor r (t # cs) \<Longrightarrow> \<not> bin_length_tag t
    \<Longrightarrow> readByteArray r = Inr (Err (InvalidLengthPrefix t), advance r 1)"
  using readBinLength_rejects [of r t cs]
  by (simp add: readByteArray_def bind_def ret_def)

lemma array_size_tag_nil: "\<not> array_size_tag t \<Longrightarrow> t \<noteq> NIL"
  by (auto simp add: array_size_tag_def NIL_def)

lemma readArraySize_rejects:
  assumes a: "at_cursor r (t # cs)" and t: "\<not> array_size_tag t"
  shows "readArraySize r = Inr (Err (InvalidLengthPrefix t), advance r 1)"
proof -
  from a have g: "getUint8 r = Inr (t, advance r 1)" by (rule getUint8_at)
  from t have "unat t < 144 \<or> 159 < unat t"
    by (auto simp add: array_size_tag_def word_le_nat_alt)
  then have f: "\<not> isFixedArray t" by (auto simp add: isFixedArray_unat)
  from t have ne: "t \<noteq> NIL" "t \<noteq> ARRAY16" "t \<noteq> ARRAY32"
    by (auto simp add: array_size_tag_def Format_defs)
  show ?thesis by (simp add: readArraySize_def bind_def ret_def g f ne)
qed

lemma readArray_rejects:
  "at_cursor r (t # cs) \<Longrightarrow> \<not> array_size_tag t
    \<Longrightarrow> readArray fn r = Inr (Err (InvalidLengthPrefix t), advance r 1)"
  using readArraySize_rejects [of r t cs]
  by (simp add: readArray_def bind_def ret_def)

lemma readNullableArray_rejects:
  assumes a: "at_cursor r (t # cs)" and t: "\<not> array_size_tag t"
  shows "readNullableArray fn r = Inr (Err (InvalidLengthPrefix t), advance r 1)"
proof -
  from t have "t \<noteq> NIL" by (rule array_size_tag_nil)
  with a have n: "isNextNil r = Inr (False, r)" by (rule isNextNil_other)
  from a t have "readArray fn r = Inr (Err (InvalidLengthPrefix t), advance r 1)"
    by (rule readArray_rejects)
  with n show ?thesis by (simp add: readNullableArray_def bind_def ret_def)
qed

lemma readMapSize_rejects:
  assumes a: "at_cursor r (t # cs)" and t: "\<not> map_size_tag t"
  shows "readMapSize r = Inr (Err (InvalidLengthPrefix t), advance r 1)"
proof -
  from a have g: "getUint8 r = Inr (t, advance r 1)" by (rule getUint8_at)
  from t have "unat t < 128 \<or> 143 < unat t"
    by (auto simp add: map_size_tag_def word_le_nat_alt)
  then have f: "\<not> isFixedMap t" by (auto simp add: isFixedMap_unat)
  from t have ne: "t \<noteq> MAP16" "t \<noteq> MAP32"
    by (auto simp add: map_size_tag_def Format_defs)
  show ?thesis by (simp add: readMapSize_def bind_def ret_def g f ne)
qed

lemma readMap_rejects:
  "at_cursor r (t # cs) \<Longrightarrow> \<not> map_size_tag t
    \<Longrightarrow> readMap keyFn valueFn r = Inr (Err (InvalidLengthPrefix t), advance r 1)"
  using readMapSize_rejects [of r t cs]
  by (simp add: readMap_def bind_def ret_def)

lemma readNullableMap_rejects:
  assumes a: "at_cursor r (t # cs)" and t: "\<not> map_size_tag t" and n: "t \<noteq> NIL"
  shows "readNullableMap keyFn valueFn r = Inr (Err (InvalidLengthPrefix t), advance r 1)"
proof -
  from a n have n: "isNextNil r = Inr (False, r)" by (rule isNextNil_other)
  from a t have "readMap keyFn valueFn r = Inr (Err (InvalidLengthPrefix t), advance r 1)"
    by (rule readMap_rejects)
  with n show ?thesis by (simp add: readNullableMap_def bind_def ret_def)
qed

section \<open>The cursor is not restored\<close>

lemma getBytes_moved:
  "getBytes n r = Inr (bs, r')
    \<Longrightarrow> buffer r' = buffer r \<and> byteOffset r' = byteOffset r + int n"
  by (auto simp add: getBytes_def split: if_splits)

lemma getUint8_moved:
  "getUint8 r = Inr (v, r') \<Longrightarrow> buffer r' = buffer r \<and> byteOffset r' = byteOffset r + 1"
  by (auto simp add: getUint8_def bind_def ret_def split: sum.splits dest!: getBytes_moved)

lemma getUint16_moved:
  "getUint16 r = Inr (v, r') \<Longrightarrow> buffer r' = buffer r \<and> byteOffset r' = byteOffset r + 2"
  by (auto simp add: getUint16_def bind_def ret_def split: sum.splits dest!: getBytes_moved)

lemma getUint32_moved:
  "getUint32 r = Inr (v, r') \<Longrightarrow> buffer r' = buffer r \<and> byteOffset r' = byteOffset r + 4"
  by (auto simp add: getUint32_def bind_def ret_def split: sum.splits dest!: getBytes_moved)

lemma getUint64_moved:
  "getUint64 r = Inr (v, r') \<Longrightarrow> buffer r' = buffer r \<and> byteOffset r' = byteOffset r + 8"
  by (auto simp add: getUint64_def bind_def ret_def split: sum.splits dest!: getBytes_moved)

lemmas get_moved = getUint8_moved getUint16_moved getUint32_moved getUint64_moved

lemma past_payload: "a < b \<Longrightarrow> a < b + uint n" for a b :: int
  using uint_ge_0 [of n] by arith

lemma readBool_moved:
  "readBool r = Inr (x, r') \<Longrightarrow> buffer r' = buffer r \<and> byteOffset r < byteOffset r'"
  by (auto simp add: readBool_def bind_def ret_def split: sum.splits if_splits
      dest!: get_moved)

lemma readInt64_moved:
  "readInt64 r = Inr (x, r') \<Longrightarrow> buffer r' = buffer r \<and> byteOffset r < byteOffset r'"
  by (auto simp add: readInt64_def bind_def ret_def getInt8_def getInt16_def getInt32_def
      getInt64_def split: sum.splits if_splits dest!: get_moved)

lemma readUInt64_moved:
  "readUInt64 r = Inr (x, r') \<Longrightarrow> buffer r' = buffer r \<and> byteOffset r < byteOffset r'"
  by (auto simp add: readUInt64_def bind_def ret_def getInt8_def getInt16_def getInt32_def
      getInt64_def split: sum.splits if_splits dest!: get_moved)

lemma readInt8_moved:
  "readInt8 r = Inr (x, r') \<Longrightarrow> buffer r' = buffer r \<and> byteOffset r < byteOffset r'"
  by (auto simp add: readInt8_def bind_def ret_def
      split: sum.splits if_splits Result.splits dest!: readInt64_moved)

lemma readInt16_moved:
  "readInt16 r = Inr (x, r') \<Longrightarrow> buffer r' = buffer r \<and> byteOffset r < byteOffset r'"
  by (auto simp add: readInt16_def bind_def ret_def
      split: sum.splits if_splits Result.splits dest!: readInt64_moved)

lemma readInt32_moved:
  "readInt32 r = Inr (x, r') \<Longrightarrow> buffer r' = buffer r \<and> byteOffset r < byteOffset r'"
  by (auto simp add: readInt32_def bind_def ret_def
      split: sum.splits if_splits Result.splits dest!: readInt64_moved)

lemma readUInt8_moved:
  "readUInt8 r = Inr (x, r') \<Longrightarrow> buffer r' = buffer r \<and> byteOffset r < byteOffset r'"
  by (auto simp add: readUInt8_def bind_def ret_def
      split: sum.splits if_splits Result.splits dest!: readUInt64_moved)

lemma readUInt16_moved:
  "readUInt16 r = Inr (x, r') \<Longrightarrow> buffer r' = buffer r \<and> byteOffset r < byteOffset r'"
  by (auto simp add: readUInt16_def bind_def ret_def
      split: sum.splits if_splits Result.splits dest!: readUInt64_moved)

lemma readUInt32_moved:
  "readUInt32 r = Inr (x, r') \<Longrightarrow> buffer r' = buffer r \<and> byteOffset r < byteOffset r'"
  by (auto simp add: readUInt32_def bind_def ret_def
      split: sum.splits if_splits Result.splits dest!: readUInt64_moved)

lemma readFloat32_moved:
  "readFloat32 narrow r = Inr (x, r')
    \<Longrightarrow> buffer r' = buffer r \<and> byteOffset r < byteOffset r'"
  by (auto simp add: readFloat32_def bind_def ret_def getFloat32_def getFloat64_def
      split: sum.splits if_splits option.splits dest!: get_moved)

lemma readFloat64_moved:
  "readFloat64 widen r = Inr (x, r')
    \<Longrightarrow> buffer r' = buffer r \<and> byteOffset r < byteOffset r'"
  by (auto simp add: readFloat64_def bind_def ret_def getFloat32_def getFloat64_def
      split: sum.splits if_splits dest!: get_moved)

lemma readStringLength_moved:
  "readStringLength r = Inr (x, r')
    \<Longrightarrow> buffer r' = buffer r \<and> byteOffset r < byteOffset r'"
  by (auto simp add: readStringLength_def bind_def ret_def
      split: sum.splits if_splits dest!: get_moved)

lemma readString_moved:
  "readString decode r = Inr (x, r')
    \<Longrightarrow> buffer r' = buffer r \<and> byteOffset r < byteOffset r'"
  by (auto simp add: readString_def bind_def ret_def past_payload
      split: sum.splits if_splits Result.splits dest!: readStringLength_moved getBytes_moved)

lemma readBinLength_moved:
  "readBinLength r = Inr (x, r')
    \<Longrightarrow> buffer r' = buffer r \<and> byteOffset r < byteOffset r'"
  by (auto simp add: readBinLength_def bind_def ret_def isNextNil_eq advance_def
      split: sum.splits if_splits dest!: get_moved)

lemma readByteArray_moved:
  "readByteArray r = Inr (x, r')
    \<Longrightarrow> buffer r' = buffer r \<and> byteOffset r < byteOffset r'"
  by (auto simp add: readByteArray_def bind_def ret_def past_payload
      split: sum.splits if_splits Result.splits dest!: readBinLength_moved getBytes_moved)

lemma readArraySize_moved:
  "readArraySize r = Inr (x, r')
    \<Longrightarrow> buffer r' = buffer r \<and> byteOffset r < byteOffset r'"
  by (auto simp add: readArraySize_def bind_def ret_def
      split: sum.splits if_splits dest!: get_moved)

lemma readMapSize_moved:
  "readMapSize r = Inr (x, r')
    \<Longrightarrow> buffer r' = buffer r \<and> byteOffset r < byteOffset r'"
  by (auto simp add: readMapSize_def bind_def ret_def
      split: sum.splits if_splits dest!: get_moved)

section \<open>Errors of the generic readers\<close>

lemma readArray_loop_error:
  "readArray_loop fn sz i a r = Inr (Err e, r') \<Longrightarrow>
     \<exists>k xs s. i \<le> k \<and> k < sz \<and> readArray_loop fn k i a r = Inr (Ok xs, s)
       \<and> fn (Some k) s = Inr (Err e, r')"
proof (induction fn sz i a r rule: readArray_loop.induct)
  case (1 fn sz i a r)
  from "1.prems" have lt: "i < sz"
    by (subst (asm) readArray_loop.simps) (simp split: if_splits)
  have stop: "readArray_loop fn i i a r = Inr (Ok a, r)"
    by (subst readArray_loop.simps) simp
  show ?case
  proof (cases "fn (Some i) r")
    case (Inl x)
    with lt "1.prems" show ?thesis
      by (subst (asm) readArray_loop.simps) simp
  next
    case (Inr p)
    obtain res r1 where p: "p = (res, r1)" by (cases p)
    show ?thesis
    proof (cases res)
      case (Err e')
      with lt Inr p "1.prems" have "fn (Some i) r = Inr (Err e, r')"
        by (subst (asm) readArray_loop.simps) simp
      with lt stop show ?thesis by (intro exI [of _ i] exI [of _ a] exI [of _ r]) simp
    next
      case (Ok item)
      with lt Inr p "1.prems"
      have "readArray_loop fn sz (i + 1) (a @ [item]) r1 = Inr (Err e, r')"
        by (subst (asm) readArray_loop.simps) simp
      then have "\<exists>k xs s. i + 1 \<le> k \<and> k < sz
          \<and> readArray_loop fn k (i + 1) (a @ [item]) r1 = Inr (Ok xs, s)
          \<and> fn (Some k) s = Inr (Err e, r')"
        using lt Inr p Ok by (intro "1.IH") simp_all
      then obtain k xs s where k: "i + 1 \<le> k" "k < sz"
        and l: "readArray_loop fn k (i + 1) (a @ [item]) r1 = Inr (Ok xs, s)"
        and f: "fn (Some k) s = Inr (Err e, r')"
        by blast
      from lt k(1) have ik: "i < k" by unat_arith
      with Inr p Ok l have "readArray_loop fn k i a r = Inr (Ok xs, s)"
        by (subst readArray_loop.simps) simp
      with ik k(2) f show ?thesis
        by (intro exI [of _ k] exI [of _ xs] exI [of _ s]) simp
    qed
  qed
qed

lemma readArray_error:
  assumes "readArray fn r = Inr (Err e, r')"
  shows "readArraySize r = Inr (Err e, r')
    \<or> (\<exists>sz r1 k xs s. readArraySize r = Inr (Ok sz, r1) \<and> k < sz
          \<and> readArray_loop fn k 0 [] r1 = Inr (Ok xs, s)
          \<and> fn (Some k) s = Inr (Err e, r'))"
proof (cases "readArraySize r")
  case (Inl x)
  with assms show ?thesis by (simp add: readArray_def bind_def)
next
  case (Inr p)
  obtain res r1 where p: "p = (res, r1)" by (cases p)
  show ?thesis
  proof (cases res)
    case (Err e')
    with Inr p assms show ?thesis by (simp add: readArray_def bind_def ret_def)
  next
    case (Ok sz)
    with Inr p assms have "readArray_loop fn sz 0 [] r1 = Inr (Err e, r')"
      by (simp add: readArray_def bind_def)
    then obtain k xs s where "k < sz" "readArray_loop fn k 0 [] r1 = Inr (Ok xs, s)"
      "fn (Some k) s = Inr (Err e, r')"
      using readArray_loop_error [of fn sz 0 "[]" r1 e r'] by blast
    with Inr p Ok show ?thesis by blast
  qed
qed

lemma readMap_loop_error:
  "readMap_loop keyFn valueFn sz i m r = Inr (Err e, r') \<Longrightarrow>
     \<exists>k m' s. i \<le> k \<and> k < sz \<and> readMap_loop keyFn valueFn k i m r = Inr (Ok m', s)
       \<and> (keyFn (Some k) s = Inr (Err e, r')
          \<or> (\<exists>key s'. keyFn (Some k) s = Inr (Ok key, s')
                \<and> valueFn (Some k) s' = Inr (Err e, r')))"
proof (induction keyFn valueFn sz i m r rule: readMap_loop.induct)
  case (1 keyFn valueFn sz i m r)
  from "1.prems" have lt: "i < sz"
    by (subst (asm) readMap_loop.simps) (simp split: if_splits)
  have stop: "readMap_loop keyFn valueFn i i m r = Inr (Ok m, r)"
    by (subst readMap_loop.simps) simp
  show ?case
  proof (cases "keyFn (Some i) r")
    case (Inl x)
    with lt "1.prems" show ?thesis
      by (subst (asm) readMap_loop.simps) simp
  next
    case (Inr p)
    obtain res r1 where p: "p = (res, r1)" by (cases p)
    show ?thesis
    proof (cases res)
      case (Err e')
      with lt Inr p "1.prems" have "keyFn (Some i) r = Inr (Err e, r')"
        by (subst (asm) readMap_loop.simps) simp
      with lt stop show ?thesis by (intro exI [of _ i] exI [of _ m] exI [of _ r]) simp
    next
      case (Ok key)
      note kOk = Inr p Ok
      show ?thesis
      proof (cases "valueFn (Some i) r1")
        case (Inl x)
        with lt kOk "1.prems" show ?thesis
          by (subst (asm) readMap_loop.simps) simp
      next
        case (Inr q)
        obtain res' r2 where q: "q = (res', r2)" by (cases q)
        show ?thesis
        proof (cases res')
          case (Err e')
          with lt kOk Inr q "1.prems" have "valueFn (Some i) r1 = Inr (Err e, r')"
            by (subst (asm) readMap_loop.simps) simp
          with lt stop kOk show ?thesis
            by (intro exI [of _ i] exI [of _ m] exI [of _ r]) simp
        next
          case (Ok val)
          with lt kOk Inr q "1.prems"
          have "readMap_loop keyFn valueFn sz (i + 1) (m(key \<mapsto> val)) r2 = Inr (Err e, r')"
            by (subst (asm) readMap_loop.simps) simp
          then have "\<exists>k m' s. i + 1 \<le> k \<and> k < sz
              \<and> readMap_loop keyFn valueFn k (i + 1) (m(key \<mapsto> val)) r2 = Inr (Ok m', s)
              \<and> (keyFn (Some k) s = Inr (Err e, r')
                 \<or> (\<exists>key s'. keyFn (Some k) s = Inr (Ok key, s')
                       \<and> valueFn (Some k) s' = Inr (Err e, r')))"
            using lt kOk Inr q Ok by (intro "1.IH") (simp_all add: fun_upd_def)
          then obtain k m' s where k: "i + 1 \<le> k" "k < sz"
            and l: "readMap_loop keyFn valueFn k (i + 1) (m(key \<mapsto> val)) r2 = Inr (Ok m', s)"
            and f: "keyFn (Some k) s = Inr (Err e, r')
                 \<or> (\<exists>key s'. keyFn (Some k) s = Inr (Ok key, s')
                       \<and> valueFn (Some k) s' = Inr (Err e, r'))"
            by blast
          from lt k(1) have ik: "i < k" by unat_arith
          with kOk Inr q Ok l have "readMap_loop keyFn valueFn k i m r = Inr (Ok m', s)"
            by (subst readMap_loop.simps) simp
          with ik k(2) f show ?thesis
            by (intro exI [of _ k] exI [of _ m'] exI [of _ s]) simp
        qed
      qed
    qed
  qed
qed

lemma readMap_error:
  assumes "readMap keyFn valueFn r = Inr (Err e, r')"
  shows "readMapSize r = Inr (Err e, r')
    \<or> (\<exists>sz r1 k m s. readMapSize r = Inr (Ok sz, r1) \<and> k < sz
          \<and> readMap_loop keyFn valueFn k 0 Map.empty r1 = Inr (Ok m, s)
          \<and> (keyFn (Some k) s = Inr (Err e, r')
             \<or> (\<exists>key s'. keyFn (Some k) s = Inr (Ok key, s')
                   \<and> valueFn (Some k) s' = Inr (Err e, r'))))"
proof (cases "readMapSize r")
  case (Inl x)
  with assms show ?thesis by (simp add: readMap_def bind_def)
next
  case (Inr p)
  obtain res r1 where p: "p = (res, r1)" by (cases p)
  show ?thesis
  proof (cases res)
    case (Err e')
    with Inr p assms show ?thesis by (simp add: readMap_def bind_def ret_def)
  next
    case (Ok sz)
    with Inr p assms have "readMap_loop keyFn valueFn sz 0 Map.empty r1 = Inr (Err e, r')"
      by (simp add: readMap_def bind_def)
    then obtain k m s where "k < sz"
      "readMap_loop keyFn valueFn k 0 Map.empty r1 = Inr (Ok m, s)"
      "keyFn (Some k) s = Inr (Err e, r')
         \<or> (\<exists>key s'. keyFn (Some k) s = Inr (Ok key, s')
               \<and> valueFn (Some k) s' = Inr (Err e, r'))"
      using readMap_loop_error [of keyFn valueFn sz 0 Map.empty r1 e r'] by blast
    with Inr p Ok show ?thesis by blast
  qed
qed

lemma readNullableArray_error:
  "readNullableArray fn r = Inr (Err e, r')
    \<Longrightarrow> isNextNil r = Inr (False, r) \<and> readArray fn r = Inr (Err e, r')"
  by (auto simp add: readNullableArray_def bind_def ret_def isNextNil_eq
      split: sum.splits if_splits Result.splits)

lemma readNullableMap_error:
  "readNullableMap keyFn valueFn r = Inr (Err e, r')
    \<Longrightarrow> isNextNil r = Inr (False, r) \<and> readMap keyFn valueFn r = Inr (Err e, r')"
  by (auto simp add: readNullableMap_def bind_def ret_def isNextNil_eq
      split: sum.splits if_splits Result.splits)

lemma readArray_past_tag:
  assumes fn: "\<forall>i s e' s'. fn i s = Inr (Err e', s')
        \<and> (kind_of e' = BadTag \<or> kind_of e' = InvalidLength) \<longrightarrow> s' = advance s 1"
    and k: "kind_of e = BadTag \<or> kind_of e = InvalidLength"
    and a: "readArray fn r = Inr (Err e, r') \<or> readNullableArray fn r = Inr (Err e, r')"
  shows "r' = advance r 1 \<or> (\<exists>k s. fn (Some k) s = Inr (Err e, r') \<and> r' = advance s 1)"
proof -
  from a have "readArray fn r = Inr (Err e, r')"
    using readNullableArray_error [of fn r e r'] by blast
  then consider "readArraySize r = Inr (Err e, r')"
    | k s where "fn (Some k) s = Inr (Err e, r')"
    using readArray_error [of fn r e r'] by blast
  then show ?thesis
  proof cases
    case 1
    then have "r' = advance r 1" using k by (rule readArraySize_reject)
    then show ?thesis by (rule disjI1)
  next
    case 2
    with fn k have "r' = advance s 1" by blast
    with 2 show ?thesis by blast
  qed
qed

lemma readMap_past_tag:
  assumes kf: "\<forall>i s e' s'. keyFn i s = Inr (Err e', s')
        \<and> (kind_of e' = BadTag \<or> kind_of e' = InvalidLength) \<longrightarrow> s' = advance s 1"
    and vf: "\<forall>i s e' s'. valueFn i s = Inr (Err e', s')
        \<and> (kind_of e' = BadTag \<or> kind_of e' = InvalidLength) \<longrightarrow> s' = advance s 1"
    and k: "kind_of e = BadTag \<or> kind_of e = InvalidLength"
    and a: "readMap keyFn valueFn r = Inr (Err e, r')
        \<or> readNullableMap keyFn valueFn r = Inr (Err e, r')"
  shows "r' = advance r 1
    \<or> (\<exists>k s. (keyFn (Some k) s = Inr (Err e, r') \<or> valueFn (Some k) s = Inr (Err e, r'))
          \<and> r' = advance s 1)"
proof -
  from a have "readMap keyFn valueFn r = Inr (Err e, r')"
    using readNullableMap_error [of keyFn valueFn r e r'] by blast
  then consider "readMapSize r = Inr (Err e, r')"
    | k s where "keyFn (Some k) s = Inr (Err e, r')"
    | k s where "valueFn (Some k) s = Inr (Err e, r')"
    using readMap_error [of keyFn valueFn r e r'] by blast
  then show ?thesis
  proof cases
    case 1
    then have "r' = advance r 1" using k by (rule readMapSize_reject)
    then show ?thesis by (rule disjI1)
  next
    case 2
    with kf k have "r' = advance s 1" by blast
    with 2 show ?thesis by blast
  next
    case 3
    with vf k have "r' = advance s 1" by blast
    with 3 show ?thesis by blast
  qed
qed

section \<open>No read is atomic on failure\<close>

text \<open>
  C10. No fallible read of the \<open>SafeDecoder\<close> is atomic on failure. With the tag \<open>t\<close> under
  the cursor:
  \<^item> every reader returns its bad-tag or invalid-length error on every tag it does not accept,
    and leaves the reader one byte further: the rejected tag is consumed. This holds for
    \<open>readBool\<close>, the eight integer readers, the two float readers, \<open>readStringLength\<close>,
    \<open>readString\<close>, \<open>readBinLength\<close>, \<open>readByteArray\<close>, \<open>readArraySize\<close>, \<open>readMapSize\<close> and,
    with any element decoders, \<open>readArray\<close>, \<open>readNullableArray\<close>, \<open>readMap\<close> and
    \<open>readNullableMap\<close>;
  \<^item> these errors are of the kinds BadTag and InvalidLength;
  \<^item> whenever one of the readers without element decoders returns an error, of any kind, the
    buffer is the same and the cursor is further than it was; when the error is of the kind
    BadTag or InvalidLength, the reader it leaves is the one it started from moved one byte
    further;
  \<^item> an error that \<open>readArray\<close> or \<open>readMap\<close> returns is the error of the size reader, with
    the reader one byte past the rejected tag, or the error that the element decoder returned
    at the first index \<open>k\<close> where it failed, after the loop had decoded the entries before
    \<open>k\<close>, and with the reader that this call of the element decoder left: the cursor is not
    restored. The nullable readers, when they return an error, have found no nil and return
    the error and the reader of the plain reader;
  \<^item> so, when the element decoders leave the reader one byte past the place where they
    started whenever they return an error of the kind BadTag or InvalidLength, as the readers
    above do, an error of these kinds from \<open>readArray\<close>, \<open>readNullableArray\<close>, \<open>readMap\<close> or
    \<open>readNullableMap\<close> leaves the reader one byte past the rejected tag: the tag of the
    container, or the tag at the place \<open>s\<close> where the failing element decoder started.
\<close>

theorem rejected_tag_stays_consumed:
  fixes fn :: "u32 option \<Rightarrow> 'a Result io"
    and keyFn :: "u32 option \<Rightarrow> 'k Result io"
    and valueFn :: "u32 option \<Rightarrow> 'v Result io"
    and decode :: "u8 list \<Rightarrow> 's"
  shows
    "(at_cursor r [t] \<longrightarrow>
        (\<not> bool_tag t \<longrightarrow> readBool r = Inr (Err (BadValueForBool t), advance r 1))
      \<and> (\<not> int_tag t \<longrightarrow>
            readInt8 r = Inr (Err (BadPrefixForInt t), advance r 1)
          \<and> readInt16 r = Inr (Err (BadPrefixForInt t), advance r 1)
          \<and> readInt32 r = Inr (Err (BadPrefixForInt t), advance r 1)
          \<and> readInt64 r = Inr (Err (BadPrefixForInt t), advance r 1))
      \<and> (\<not> uint_tag t \<longrightarrow>
            readUInt8 r = Inr (Err (BadPrefixForUnsignedInt t), advance r 1)
          \<and> readUInt16 r = Inr (Err (BadPrefixForUnsignedInt t), advance r 1)
          \<and> readUInt32 r = Inr (Err (BadPrefixForUnsignedInt t), advance r 1)
          \<and> readUInt64 r = Inr (Err (BadPrefixForUnsignedInt t), advance r 1))
      \<and> (\<not> float_tag t \<longrightarrow>
            readFloat32 narrow r = Inr (Err (BadPrefixForFloat t), advance r 1)
          \<and> readFloat64 widen r = Inr (Err (BadPrefixForFloat t), advance r 1))
      \<and> (\<not> string_length_tag t \<longrightarrow>
            readStringLength r = Inr (Err (InvalidLengthPrefix t), advance r 1)
          \<and> readString decode r = Inr (Err (InvalidLengthPrefix t), advance r 1))
      \<and> (\<not> bin_length_tag t \<longrightarrow>
            readBinLength r = Inr (Err (InvalidLengthPrefix t), advance r 1)
          \<and> readByteArray r = Inr (Err (InvalidLengthPrefix t), advance r 1))
      \<and> (\<not> array_size_tag t \<longrightarrow>
            readArraySize r = Inr (Err (InvalidLengthPrefix t), advance r 1)
          \<and> readArray fn r = Inr (Err (InvalidLengthPrefix t), advance r 1)
          \<and> readNullableArray fn r = Inr (Err (InvalidLengthPrefix t), advance r 1))
      \<and> (\<not> map_size_tag t \<longrightarrow>
            readMapSize r = Inr (Err (InvalidLengthPrefix t), advance r 1)
          \<and> readMap keyFn valueFn r = Inr (Err (InvalidLengthPrefix t), advance r 1)
          \<and> (t \<noteq> NIL \<longrightarrow>
               readNullableMap keyFn valueFn r
                 = Inr (Err (InvalidLengthPrefix t), advance r 1))))
   \<and> kind_of (BadValueForBool t) = BadTag
   \<and> kind_of (BadPrefixForInt t) = BadTag
   \<and> kind_of (BadPrefixForUnsignedInt t) = BadTag
   \<and> kind_of (BadPrefixForFloat t) = BadTag
   \<and> kind_of (InvalidLengthPrefix t) = InvalidLength
   \<and> ((readBool r = Inr (Err e, r') \<or> readInt8 r = Inr (Err e, r')
           \<or> readInt16 r = Inr (Err e, r') \<or> readInt32 r = Inr (Err e, r')
           \<or> readInt64 r = Inr (Err e, r') \<or> readUInt8 r = Inr (Err e, r')
           \<or> readUInt16 r = Inr (Err e, r') \<or> readUInt32 r = Inr (Err e, r')
           \<or> readUInt64 r = Inr (Err e, r') \<or> readFloat32 narrow r = Inr (Err e, r')
           \<or> readFloat64 widen r = Inr (Err e, r') \<or> readStringLength r = Inr (Err e, r')
           \<or> readString decode r = Inr (Err e, r') \<or> readBinLength r = Inr (Err e, r')
           \<or> readByteArray r = Inr (Err e, r') \<or> readArraySize r = Inr (Err e, r')
           \<or> readMapSize r = Inr (Err e, r'))
        \<longrightarrow> buffer r' = buffer r \<and> byteOffset r < byteOffset r'
          \<and> (kind_of e = BadTag \<or> kind_of e = InvalidLength
               \<longrightarrow> r' = advance r 1 \<and> byteOffset r' = byteOffset r + 1))
   \<and> (readArray fn r = Inr (Err e, r') \<longrightarrow>
          readArraySize r = Inr (Err e, r')
        \<or> (\<exists>sz r1 k xs s. readArraySize r = Inr (Ok sz, r1) \<and> k < sz
              \<and> readArray_loop fn k 0 [] r1 = Inr (Ok xs, s)
              \<and> fn (Some k) s = Inr (Err e, r')))
   \<and> (readNullableArray fn r = Inr (Err e, r') \<longrightarrow>
          isNextNil r = Inr (False, r) \<and> readArray fn r = Inr (Err e, r'))
   \<and> (readMap keyFn valueFn r = Inr (Err e, r') \<longrightarrow>
          readMapSize r = Inr (Err e, r')
        \<or> (\<exists>sz r1 k m s. readMapSize r = Inr (Ok sz, r1) \<and> k < sz
              \<and> readMap_loop keyFn valueFn k 0 Map.empty r1 = Inr (Ok m, s)
              \<and> (keyFn (Some k) s = Inr (Err e, r')
                 \<or> (\<exists>key s'. keyFn (Some k) s = Inr (Ok key, s')
                       \<and> valueFn (Some k) s' = Inr (Err e, r')))))
   \<and> (readNullableMap keyFn valueFn r = Inr (Err e, r') \<longrightarrow>
          isNextNil r = Inr (False, r) \<and> readMap keyFn valueFn r = Inr (Err e, r'))
   \<and> ((\<forall>i s e' s'. fn i s = Inr (Err e', s')
           \<and> (kind_of e' = BadTag \<or> kind_of e' = InvalidLength) \<longrightarrow> s' = advance s 1)
        \<and> (kind_of e = BadTag \<or> kind_of e = InvalidLength)
        \<and> (readArray fn r = Inr (Err e, r') \<or> readNullableArray fn r = Inr (Err e, r'))
        \<longrightarrow> r' = advance r 1
          \<or> (\<exists>k s. fn (Some k) s = Inr (Err e, r') \<and> r' = advance s 1))
   \<and> ((\<forall>i s e' s'. keyFn i s = Inr (Err e', s')
           \<and> (kind_of e' = BadTag \<or> kind_of e' = InvalidLength) \<longrightarrow> s' = advance s 1)
        \<and> (\<forall>i s e' s'. valueFn i s = Inr (Err e', s')
           \<and> (kind_of e' = BadTag \<or> kind_of e' = InvalidLength) \<longrightarrow> s' = advance s 1)
        \<and> (kind_of e = BadTag \<or> kind_of e = InvalidLength)
        \<and> (readMap keyFn valueFn r = Inr (Err e, r')
           \<or> readNullableMap keyFn valueFn r = Inr (Err e, r'))
        \<longrightarrow> r' = advance r 1
          \<or> (\<exists>k s. (keyFn (Some k) s = Inr (Err e, r')
                    \<or> valueFn (Some k) s = Inr (Err e, r'))
                \<and> r' = advance s 1))"
    (is "(_ \<longrightarrow> ?b \<and> ?i \<and> ?u \<and> ?f \<and> ?s \<and> ?n \<and> ?l \<and> ?m)
      \<and> ?k1 \<and> ?k2 \<and> ?k3 \<and> ?k4 \<and> ?k5
      \<and> (?h \<longrightarrow> ?mb \<and> ?mo \<and> ?one) \<and> ?arr \<and> ?narr \<and> ?mp \<and> ?nmp
      \<and> ?parr \<and> ?pmp")
proof -
  have input: "at_cursor r [t] \<longrightarrow> ?b \<and> ?i \<and> ?u \<and> ?f \<and> ?s \<and> ?n \<and> ?l \<and> ?m"
  proof
    assume a: "at_cursor r [t]"
    have b: ?b
      using a by (blast intro: readBool_rejects)
    have i: ?i
      using a by (blast intro: readInt64_other narrow_int_rejects)
    have u: ?u
      using a by (blast intro: readUInt64_rejects narrow_uint_rejects)
    have f: ?f
      using a by (blast intro: readFloat_rejects)
    have s: ?s
      using a by (blast intro: readStringLength_rejects readString_rejects)
    have n: ?n
      using a by (blast intro: readBinLength_rejects readByteArray_rejects)
    have l: ?l
      using a
      by (blast intro: readArraySize_rejects readArray_rejects readNullableArray_rejects)
    have m: ?m
      using a by (blast intro: readMapSize_rejects readMap_rejects readNullableMap_rejects)
    from b i u f s n l m show "?b \<and> ?i \<and> ?u \<and> ?f \<and> ?s \<and> ?n \<and> ?l \<and> ?m"
      by (intro conjI)
  qed
  have kinds: "?k1 \<and> ?k2 \<and> ?k3 \<and> ?k4 \<and> ?k5"
    by simp
  have "output": "?h \<longrightarrow> ?mb \<and> ?mo \<and> ?one"
  proof
    assume h: ?h
    then have moved: "?mb \<and> ?mo"
      by (elim disjE)
        (erule readBool_moved readInt8_moved readInt16_moved readInt32_moved
            readInt64_moved readUInt8_moved readUInt16_moved readUInt32_moved
            readUInt64_moved readFloat32_moved readFloat64_moved readStringLength_moved
            readString_moved readBinLength_moved readByteArray_moved readArraySize_moved
            readMapSize_moved)+
    have one: ?one
    proof
      assume k: "kind_of e = BadTag \<or> kind_of e = InvalidLength"
      from h have "r' = advance r 1"
        by (elim disjE)
          ((erule readBool_reject readInt8_reject readInt16_reject readInt32_reject
              readInt64_reject readUInt8_reject readUInt16_reject readUInt32_reject
              readUInt64_reject readFloat32_reject readFloat64_reject readStringLength_reject
              readString_reject readBinLength_reject readByteArray_reject
              readArraySize_reject readMapSize_reject, rule k)+)
      then show "r' = advance r 1 \<and> byteOffset r' = byteOffset r + 1"
        by (simp add: advance_def)
    qed
    from moved one show "?mb \<and> ?mo \<and> ?one" by (simp only: simp_thms)
  qed
  have arr: ?arr
    by (rule impI) (rule readArray_error)
  have narr: ?narr
    by (rule impI) (rule readNullableArray_error)
  have mpr: ?mp
    by (rule impI) (rule readMap_error)
  have nmp: ?nmp
    by (rule impI) (rule readNullableMap_error)
  have parr: ?parr
    by (rule impI, elim conjE) (rule readArray_past_tag)
  have pmp: ?pmp
    by (rule impI, elim conjE) (rule readMap_past_tag)
  from input kinds "output" arr narr mpr nmp parr pmp show ?thesis
    by (intro conjI) (simp_all only: simp_thms)
qed

theorem rejected_tag_stays_consumed_witness:
  "readBool \<lparr>buffer = [0xc1, 0x01], byteOffset = 0\<rparr>
     = Inr (Err (BadValueForBool 0xc1), \<lparr>buffer = [0xc1, 0x01], byteOffset = 1\<rparr>)
   \<and> readInt16 \<lparr>buffer = [0xc1, 0x01], byteOffset = 0\<rparr>
     = Inr (Err (BadPrefixForInt 0xc1), \<lparr>buffer = [0xc1, 0x01], byteOffset = 1\<rparr>)
   \<and> readUInt64 \<lparr>buffer = [0xc1, 0x01], byteOffset = 0\<rparr>
     = Inr (Err (BadPrefixForUnsignedInt 0xc1), \<lparr>buffer = [0xc1, 0x01], byteOffset = 1\<rparr>)
   \<and> readFloat32 (\<lambda>v. Some (ucast v)) \<lparr>buffer = [0xc1, 0x01], byteOffset = 0\<rparr>
     = Inr (Err (BadPrefixForFloat 0xc1), \<lparr>buffer = [0xc1, 0x01], byteOffset = 1\<rparr>)
   \<and> readFloat64 ucast \<lparr>buffer = [0xc1, 0x01], byteOffset = 0\<rparr>
     = Inr (Err (BadPrefixForFloat 0xc1), \<lparr>buffer = [0xc1, 0x01], byteOffset = 1\<rparr>)
   \<and> readString (\<lambda>bs. bs) \<lparr>buffer = [0xc1, 0x01], byteOffset = 0\<rparr>
     = Inr (Err (InvalidLengthPrefix 0xc1), \<lparr>buffer = [0xc1, 0x01], byteOffset = 1\<rparr>)
   \<and> readByteArray \<lparr>buffer = [0xc1, 0x01], byteOffset = 0\<rparr>
     = Inr (Err (InvalidLengthPrefix 0xc1), \<lparr>buffer = [0xc1, 0x01], byteOffset = 1\<rparr>)
   \<and> readArray (\<lambda>i. readBool) \<lparr>buffer = [0xc1, 0x01], byteOffset = 0\<rparr>
     = Inr (Err (InvalidLengthPrefix 0xc1), \<lparr>buffer = [0xc1, 0x01], byteOffset = 1\<rparr>)
   \<and> readNullableArray (\<lambda>i. readBool) \<lparr>buffer = [0xc1, 0x01], byteOffset = 0\<rparr>
     = Inr (Err (InvalidLengthPrefix 0xc1), \<lparr>buffer = [0xc1, 0x01], byteOffset = 1\<rparr>)
   \<and> readMap (\<lambda>i. readInt8) (\<lambda>i. readBool) \<lparr>buffer = [0xc1, 0x01], byteOffset = 0\<rparr>
     = Inr (Err (InvalidLengthPrefix 0xc1), \<lparr>buffer = [0xc1, 0x01], byteOffset = 1\<rparr>)
   \<and> readNullableMap (\<lambda>i. readInt8) (\<lambda>i. readBool) \<lparr>buffer = [0xc1, 0x01], byteOffset = 0\<rparr>
     = Inr (Err (InvalidLengthPrefix 0xc1), \<lparr>buffer = [0xc1, 0x01], byteOffset = 1\<rparr>)
   \<and> readInt8 \<lparr>buffer = [0xcc, 0xff], byteOffset = 0\<rparr>
     = Inr (Err (IntegerOverflowBits 255 8), \<lparr>buffer = [0xcc, 0xff], byteOffset = 2\<rparr>)
   \<and> byteOffset \<lparr>buffer = [0xcc, 0xff], byteOffset = 0\<rparr>
     < byteOffset \<lparr>buffer = [0xcc, 0xff], byteOffset = 2\<rparr>
   \<and> readArray (\<lambda>i. readBool) \<lparr>buffer = [0x93, 0xc3, 0x05, 0xc2], byteOffset = 0\<rparr>
     = Inr (Err (BadValueForBool 0x05), \<lparr>buffer = [0x93, 0xc3, 0x05, 0xc2], byteOffset = 3\<rparr>)
   \<and> (\<exists>k xs s. k < 3
        \<and> readArray_loop (\<lambda>i. readBool) k 0 [] \<lparr>buffer = [0x93, 0xc3, 0x05, 0xc2], byteOffset = 1\<rparr>
            = Inr (Ok xs, s)
        \<and> readBool s = Inr (Err (BadValueForBool 0x05), \<lparr>buffer = [0x93, 0xc3, 0x05, 0xc2], byteOffset = 3\<rparr>))
   \<and> readBool \<lparr>buffer = [0x93, 0xc3, 0x05, 0xc2], byteOffset = 2\<rparr>
     = Inr (Err (BadValueForBool 0x05), \<lparr>buffer = [0x93, 0xc3, 0x05, 0xc2], byteOffset = 3\<rparr>)
   \<and> \<lparr>buffer = [0x93, 0xc3, 0x05, 0xc2], byteOffset = 3\<rparr>
     = advance \<lparr>buffer = [0x93, 0xc3, 0x05, 0xc2], byteOffset = 2\<rparr> 1
   \<and> (\<exists>s. readBool s = Inr (Err (BadValueForBool 0x05), \<lparr>buffer = [0x93, 0xc3, 0x05, 0xc2], byteOffset = 3\<rparr>)
        \<and> \<lparr>buffer = [0x93, 0xc3, 0x05, 0xc2], byteOffset = 3\<rparr> = advance s 1)
   \<and> readMap (\<lambda>i. readInt8) (\<lambda>i. readBool) \<lparr>buffer = [0x81, 0x01, 0x05], byteOffset = 0\<rparr>
     = Inr (Err (BadValueForBool 0x05), \<lparr>buffer = [0x81, 0x01, 0x05], byteOffset = 3\<rparr>)
   \<and> (\<exists>s. (readInt8 s = Inr (Err (BadValueForBool 0x05), \<lparr>buffer = [0x81, 0x01, 0x05], byteOffset = 3\<rparr>)
            \<or> readBool s = Inr (Err (BadValueForBool 0x05), \<lparr>buffer = [0x81, 0x01, 0x05], byteOffset = 3\<rparr>))
        \<and> \<lparr>buffer = [0x81, 0x01, 0x05], byteOffset = 3\<rparr> = advance s 1)"
proof -
  let ?r = "\<lparr>buffer = [0xc1, 0x01], byteOffset = 0\<rparr>"
  let ?r1 = "\<lparr>buffer = [0xc1, 0x01], byteOffset = 1\<rparr>"
  let ?o0 = "\<lparr>buffer = [0xcc, 0xff], byteOffset = 0\<rparr>"
  let ?o1 = "\<lparr>buffer = [0xcc, 0xff], byteOffset = 1\<rparr>"
  let ?o2 = "\<lparr>buffer = [0xcc, 0xff], byteOffset = 2\<rparr>"
  let ?a0 = "\<lparr>buffer = [0x93, 0xc3, 0x05, 0xc2], byteOffset = 0\<rparr>"
  let ?a1 = "\<lparr>buffer = [0x93, 0xc3, 0x05, 0xc2], byteOffset = 1\<rparr>"
  let ?a2 = "\<lparr>buffer = [0x93, 0xc3, 0x05, 0xc2], byteOffset = 2\<rparr>"
  let ?a3 = "\<lparr>buffer = [0x93, 0xc3, 0x05, 0xc2], byteOffset = 3\<rparr>"
  let ?m0 = "\<lparr>buffer = [0x81, 0x01, 0x05], byteOffset = 0\<rparr>"
  let ?m1 = "\<lparr>buffer = [0x81, 0x01, 0x05], byteOffset = 1\<rparr>"
  let ?m2 = "\<lparr>buffer = [0x81, 0x01, 0x05], byteOffset = 2\<rparr>"
  let ?m3 = "\<lparr>buffer = [0x81, 0x01, 0x05], byteOffset = 3\<rparr>"
  txt \<open>The tag \<open>0xc1\<close> is accepted by no reader.\<close>
  have c: "at_cursor ?r [0xc1]" by (simp add: at_cursor_def)
  have t: "\<not> bool_tag 0xc1" "\<not> int_tag 0xc1" "\<not> uint_tag 0xc1" "\<not> float_tag 0xc1"
    "\<not> string_length_tag 0xc1" "\<not> bin_length_tag 0xc1" "\<not> array_size_tag 0xc1"
    "\<not> map_size_tag 0xc1" "(0xc1::u8) \<noteq> NIL"
    by (simp_all add: bool_tag_def int_tag_def uint_tag_def float_tag_def
        string_length_tag_def bin_length_tag_def array_size_tag_def map_size_tag_def NIL_def)
  have "readBool ?r
       = Inr (Err (BadValueForBool 0xc1), advance ?r 1)
    \<and> readInt16 ?r
       = Inr (Err (BadPrefixForInt 0xc1), advance ?r 1)
    \<and> readUInt64 ?r
       = Inr (Err (BadPrefixForUnsignedInt 0xc1), advance ?r 1)
    \<and> readFloat32 (\<lambda>v. Some (ucast v)) ?r
       = Inr (Err (BadPrefixForFloat 0xc1), advance ?r 1)
    \<and> readFloat64 ucast ?r
       = Inr (Err (BadPrefixForFloat 0xc1), advance ?r 1)
    \<and> readString (\<lambda>bs. bs) ?r
       = Inr (Err (InvalidLengthPrefix 0xc1), advance ?r 1)
    \<and> readByteArray ?r
       = Inr (Err (InvalidLengthPrefix 0xc1), advance ?r 1)
    \<and> readArray (\<lambda>i. readBool) ?r
       = Inr (Err (InvalidLengthPrefix 0xc1), advance ?r 1)
    \<and> readNullableArray (\<lambda>i. readBool) ?r
       = Inr (Err (InvalidLengthPrefix 0xc1), advance ?r 1)
    \<and> readMap (\<lambda>i. readInt8) (\<lambda>i. readBool) ?r
       = Inr (Err (InvalidLengthPrefix 0xc1), advance ?r 1)
    \<and> readNullableMap (\<lambda>i. readInt8) (\<lambda>i. readBool) ?r
       = Inr (Err (InvalidLengthPrefix 0xc1), advance ?r 1)"
    using t
      rejected_tag_stays_consumed [where r = ?r and t = "0xc1" and e = "BadValueForBool 0xc1" and r' = ?r1
        and fn = "\<lambda>i. readBool" and keyFn = "\<lambda>i. readInt8" and valueFn = "\<lambda>i. readBool"
        and narrow = "\<lambda>v. Some (ucast v)" and widen = ucast and decode = "\<lambda>bs. bs",
        THEN conjunct1, THEN mp, OF c]
    by simp
  then have first: "readBool ?r
       = Inr (Err (BadValueForBool 0xc1), ?r1)
    \<and> readInt16 ?r
       = Inr (Err (BadPrefixForInt 0xc1), ?r1)
    \<and> readUInt64 ?r
       = Inr (Err (BadPrefixForUnsignedInt 0xc1), ?r1)
    \<and> readFloat32 (\<lambda>v. Some (ucast v)) ?r
       = Inr (Err (BadPrefixForFloat 0xc1), ?r1)
    \<and> readFloat64 ucast ?r
       = Inr (Err (BadPrefixForFloat 0xc1), ?r1)
    \<and> readString (\<lambda>bs. bs) ?r
       = Inr (Err (InvalidLengthPrefix 0xc1), ?r1)
    \<and> readByteArray ?r
       = Inr (Err (InvalidLengthPrefix 0xc1), ?r1)
    \<and> readArray (\<lambda>i. readBool) ?r
       = Inr (Err (InvalidLengthPrefix 0xc1), ?r1)
    \<and> readNullableArray (\<lambda>i. readBool) ?r
       = Inr (Err (InvalidLengthPrefix 0xc1), ?r1)
    \<and> readMap (\<lambda>i. readInt8) (\<lambda>i. readBool) ?r
       = Inr (Err (InvalidLengthPrefix 0xc1), ?r1)
    \<and> readNullableMap (\<lambda>i. readInt8) (\<lambda>i. readBool) ?r
       = Inr (Err (InvalidLengthPrefix 0xc1), ?r1)"
    by (simp add: advance_def)
  txt \<open>An overflow: the uint8 255 read as an \<open>i8\<close>.\<close>
  have "getUint8 ?o0 = Inr (0xcc, advance ?o0 1)"
    by (rule getUint8_at [where cs = "[0xff]"]) (simp add: at_cursor_def)
  then have g0: "getUint8 ?o0 = Inr (0xcc, ?o1)" by (simp add: advance_def)
  have "getUint8 ?o1 = Inr (0xff, advance ?o1 1)"
    by (rule getUint8_at [where cs = "[]"]) (simp add: at_cursor_def)
  then have g1: "getUint8 ?o1 = Inr (0xff, ?o2)" by (simp add: advance_def)
  have "readInt64 ?o0 = Inr (Ok 255, ?o2)"
    by (simp add: readInt64_def bind_def ret_def g0 g1 tag_tests)
  then have ov: "readInt8 ?o0 = Inr (Err (IntegerOverflowBits 255 8), ?o2)"
    by (simp add: readInt8_def bind_def ret_def)
  have "buffer ?o2 = buffer ?o0 \<and> byteOffset ?o0 < byteOffset ?o2
      \<and> (kind_of (IntegerOverflowBits 255 8) = BadTag
            \<or> kind_of (IntegerOverflowBits 255 8) = InvalidLength
          \<longrightarrow> ?o2 = advance ?o0 1 \<and> byteOffset ?o2 = byteOffset ?o0 + 1)"
    by (rule rejected_tag_stays_consumed [where r = ?o0 and t = "0xcc" and e = "IntegerOverflowBits 255 8" and r' = ?o2
        and fn = "\<lambda>i. readBool" and keyFn = "\<lambda>i. readInt8" and valueFn = "\<lambda>i. readBool"
        and narrow = "\<lambda>v. Some (ucast v)" and widen = ucast and decode = "\<lambda>bs. bs",
        THEN conjunct2, THEN conjunct2, THEN conjunct2, THEN conjunct2, THEN conjunct2,
        THEN conjunct2, THEN conjunct1, THEN mp])
      (rule disjI2, rule disjI1, rule ov)
  then have further: "byteOffset ?o0 < byteOffset ?o2" by (simp only: simp_thms)
  txt \<open>An array of three booleans whose second element is the fixint 5.\<close>
  have "getUint8 ?a0 = Inr (0x93, advance ?a0 1)"
    by (rule getUint8_at [where cs = "[0xc3, 0x05, 0xc2]"]) (simp add: at_cursor_def)
  then have sz: "readArraySize ?a0 = Inr (Ok 3, ?a1)"
    by (simp add: readArraySize_def bind_def ret_def tag_tests advance_def)
  have "getUint8 ?a1 = Inr (0xc3, advance ?a1 1)"
    by (rule getUint8_at [where cs = "[0x05, 0xc2]"]) (simp add: at_cursor_def)
  then have b1: "readBool ?a1 = Inr (Ok True, ?a2)"
    by (simp add: readBool_def bind_def ret_def TRUE_def FALSE_def advance_def)
  have c2: "at_cursor ?a2 [0x05]" by (simp add: at_cursor_def)
  have "\<not> bool_tag 0x05" by (simp add: bool_tag_def)
  with c2 have "readBool ?a2 = Inr (Err (BadValueForBool 0x05), advance ?a2 1)"
    using rejected_tag_stays_consumed [where r = ?a2 and t = "0x05" and e = "BadValueForBool 0x05" and r' = ?a3
        and fn = "\<lambda>i. readBool" and keyFn = "\<lambda>i. readInt8" and valueFn = "\<lambda>i. readBool"
        and narrow = "\<lambda>v. Some (ucast v)" and widen = ucast and decode = "\<lambda>bs. bs",
        THEN conjunct1, THEN mp, THEN conjunct1]
    by simp
  then have b2: "readBool ?a2 = Inr (Err (BadValueForBool 0x05), ?a3)"
    by (simp add: advance_def)
  have "readArray_loop (\<lambda>i. readBool) 3 1 [True] ?a2 = Inr (Err (BadValueForBool 0x05), ?a3)"
    by (subst readArray_loop.simps) (simp add: b2)
  then have "readArray_loop (\<lambda>i. readBool) 3 0 [] ?a1 = Inr (Err (BadValueForBool 0x05), ?a3)"
    by (subst readArray_loop.simps) (simp add: b1)
  with sz have arr: "readArray (\<lambda>i. readBool) ?a0 = Inr (Err (BadValueForBool 0x05), ?a3)"
    by (simp add: readArray_def bind_def)
  have "readArraySize ?a0 = Inr (Err (BadValueForBool 0x05), ?a3)
        \<or> (\<exists>sz r1 k xs s. readArraySize ?a0 = Inr (Ok sz, r1) \<and> k < sz
              \<and> readArray_loop (\<lambda>i. readBool) k 0 [] r1 = Inr (Ok xs, s)
              \<and> readBool s = Inr (Err (BadValueForBool 0x05), ?a3))"
    using arr
    by (rule rejected_tag_stays_consumed [where r = ?a0 and t = "0x05" and e = "BadValueForBool 0x05" and r' = ?a3
        and fn = "\<lambda>i. readBool" and keyFn = "\<lambda>i. readInt8" and valueFn = "\<lambda>i. readBool"
        and narrow = "\<lambda>v. Some (ucast v)" and widen = ucast and decode = "\<lambda>bs. bs",
        THEN conjunct2, THEN conjunct2, THEN conjunct2, THEN conjunct2, THEN conjunct2,
        THEN conjunct2, THEN conjunct2, THEN conjunct1, THEN mp])
  with sz have el: "\<exists>k xs s. k < 3
        \<and> readArray_loop (\<lambda>i. readBool) k 0 [] ?a1 = Inr (Ok xs, s)
        \<and> readBool s = Inr (Err (BadValueForBool 0x05), ?a3)"
    by (simp del: readArray_loop.simps)
  have kb: "kind_of (BadValueForBool 0x05) = BadTag
      \<or> kind_of (BadValueForBool 0x05) = InvalidLength"
    by simp
  have "buffer ?a3 = buffer ?a2 \<and> byteOffset ?a2 < byteOffset ?a3
      \<and> (kind_of (BadValueForBool 0x05) = BadTag
            \<or> kind_of (BadValueForBool 0x05) = InvalidLength
          \<longrightarrow> ?a3 = advance ?a2 1 \<and> byteOffset ?a3 = byteOffset ?a2 + 1)"
    by (rule rejected_tag_stays_consumed [where r = ?a2 and t = "0x05" and e = "BadValueForBool 0x05" and r' = ?a3
        and fn = "\<lambda>i. readBool" and keyFn = "\<lambda>i. readInt8" and valueFn = "\<lambda>i. readBool"
        and narrow = "\<lambda>v. Some (ucast v)" and widen = ucast and decode = "\<lambda>bs. bs",
        THEN conjunct2, THEN conjunct2, THEN conjunct2, THEN conjunct2, THEN conjunct2,
        THEN conjunct2, THEN conjunct1, THEN mp])
      (rule disjI1, rule b2)
  with kb have past: "?a3 = advance ?a2 1" by (simp only: simp_thms)
  txt \<open>The element decoders of the two examples consume the tags they reject.\<close>
  have eb: "\<forall>i s e' s'. readBool s = Inr (Err e', s')
      \<and> (kind_of e' = BadTag \<or> kind_of e' = InvalidLength) \<longrightarrow> s' = advance s 1"
    by (blast intro: readBool_reject)
  have ei: "\<forall>i s e' s'. readInt8 s = Inr (Err e', s')
      \<and> (kind_of e' = BadTag \<or> kind_of e' = InvalidLength) \<longrightarrow> s' = advance s 1"
    by (blast intro: readInt8_reject)
  have "?a3 = advance ?a0 1
      \<or> (\<exists>(k::u32) s. readBool s = Inr (Err (BadValueForBool 0x05), ?a3)
            \<and> ?a3 = advance s 1)"
    by (rule rejected_tag_stays_consumed [where r = ?a0 and t = "0x05" and e = "BadValueForBool 0x05" and r' = ?a3
        and fn = "\<lambda>i. readBool" and keyFn = "\<lambda>i. readInt8" and valueFn = "\<lambda>i. readBool"
        and narrow = "\<lambda>v. Some (ucast v)" and widen = ucast and decode = "\<lambda>bs. bs",
        THEN conjunct2, THEN conjunct2, THEN conjunct2, THEN conjunct2, THEN conjunct2,
        THEN conjunct2, THEN conjunct2, THEN conjunct2, THEN conjunct2, THEN conjunct2,
        THEN conjunct2, THEN conjunct1, THEN mp])
      (intro conjI, rule eb, rule kb, rule disjI1, rule arr)
  then have pa: "\<exists>s. readBool s = Inr (Err (BadValueForBool 0x05), ?a3)
      \<and> ?a3 = advance s 1"
    by (simp add: advance_def)
  txt \<open>A map of one pair whose value is the fixint 5, read as a boolean.\<close>
  have "getUint8 ?m0 = Inr (0x81, advance ?m0 1)"
    by (rule getUint8_at [where cs = "[0x01, 0x05]"]) (simp add: at_cursor_def)
  then have msz: "readMapSize ?m0 = Inr (Ok 1, ?m1)"
    by (simp add: readMapSize_def bind_def ret_def tag_tests advance_def)
  have "getUint8 ?m1 = Inr (0x01, advance ?m1 1)"
    by (rule getUint8_at [where cs = "[0x05]"]) (simp add: at_cursor_def)
  then have "readInt64 ?m1 = Inr (Ok 1, ?m2)"
    by (simp add: readInt64_def bind_def ret_def tag_tests advance_def)
  then have key: "readInt8 ?m1 = Inr (Ok 1, ?m2)"
    by (simp add: readInt8_def bind_def ret_def)
  have "getUint8 ?m2 = Inr (0x05, advance ?m2 1)"
    by (rule getUint8_at [where cs = "[]"]) (simp add: at_cursor_def)
  then have val: "readBool ?m2 = Inr (Err (BadValueForBool 0x05), ?m3)"
    by (simp add: readBool_def bind_def ret_def TRUE_def FALSE_def advance_def)
  have "readMap_loop (\<lambda>i. readInt8) (\<lambda>i. readBool) 1 0 Map.empty ?m1
      = Inr (Err (BadValueForBool 0x05), ?m3)"
    by (subst readMap_loop.simps) (simp add: key val)
  with msz have mpe: "readMap (\<lambda>i. readInt8) (\<lambda>i. readBool) ?m0
      = Inr (Err (BadValueForBool 0x05), ?m3)"
    by (simp add: readMap_def bind_def)
  have "?m3 = advance ?m0 1
      \<or> (\<exists>(k::u32) s. (readInt8 s = Inr (Err (BadValueForBool 0x05), ?m3)
                \<or> readBool s = Inr (Err (BadValueForBool 0x05), ?m3))
            \<and> ?m3 = advance s 1)"
    by (rule rejected_tag_stays_consumed [where r = ?m0 and t = "0x05" and e = "BadValueForBool 0x05" and r' = ?m3
        and fn = "\<lambda>i. readBool" and keyFn = "\<lambda>i. readInt8" and valueFn = "\<lambda>i. readBool"
        and narrow = "\<lambda>v. Some (ucast v)" and widen = ucast and decode = "\<lambda>bs. bs",
        THEN conjunct2, THEN conjunct2, THEN conjunct2, THEN conjunct2, THEN conjunct2,
        THEN conjunct2, THEN conjunct2, THEN conjunct2, THEN conjunct2, THEN conjunct2,
        THEN conjunct2, THEN conjunct2, THEN mp])
      (intro conjI, rule ei, rule eb, rule kb, rule disjI1, rule mpe)
  then have pm: "\<exists>s. (readInt8 s = Inr (Err (BadValueForBool 0x05), ?m3)
          \<or> readBool s = Inr (Err (BadValueForBool 0x05), ?m3))
      \<and> ?m3 = advance s 1"
    by (simp add: advance_def)
  from first ov further arr el b2 past pa mpe pm show ?thesis
    by - (elim conjE, intro conjI, assumption+)
qed

end
